theory Spec2Isabelle
  imports Complex_Main "HOL-Library.Word"
begin

section \<open>DNS messages (the fields of \<open>dns.Msg\<close> that \<open>freedns.go\<close> reads or writes)\<close>

text \<open>
  \<open>dns.Question\<close>: the name is compared and concatenated as a Go string, byte by byte;
  \<open>Qtype\<close> and \<open>Qclass\<close> are \<open>uint16\<close>.
\<close>

record Question =
  Name :: string
  Qtype :: "16 word"
  Qclass :: "16 word"

text \<open>\<open>dns.RR_Header\<close>; \<open>Ttl\<close> is a \<open>uint32\<close>.\<close>

record RR_Header =
  Hdr_Name :: string
  Rrtype :: "16 word"
  Class :: "16 word"
  Ttl :: "32 word"

text \<open>
  \<open>dns.RR\<close> is an interface. The code only distinguishes \<open>*dns.A\<close> (whose field \<open>A\<close> is a
  \<open>net.IP\<close>, a byte slice) from every other record type, whose payload it never reads.
\<close>

type_synonym IP = "8 word list"

datatype RR = RR_A RR_Header IP | RR_Other RR_Header "8 word list"

fun Header :: "RR \<Rightarrow> RR_Header" where
  "Header (RR_A h ip) = h"
| "Header (RR_Other h d) = h"

fun set_Header :: "RR \<Rightarrow> RR_Header \<Rightarrow> RR" where
  "set_Header (RR_A h ip) h' = RR_A h' ip"
| "set_Header (RR_Other h d) h' = RR_Other h' d"

text \<open>\<open>dns.Msg\<close> with its embedded \<open>MsgHdr\<close>. \<open>Rcode\<close> and \<open>Opcode\<close> are Go \<open>int\<close>s.\<close>

record Msg =
  Id :: "16 word"
  Response :: bool
  Opcode :: int
  Authoritative :: bool
  Truncated :: bool
  RecursionDesired :: bool
  RecursionAvailable :: bool
  Zero :: bool
  AuthenticatedData :: bool
  CheckingDisabled :: bool
  Rcode :: int
  Compress :: bool
  Question :: "Question list"
  Answer :: "RR list"
  Ns :: "RR list"
  Extra :: "RR list"

definition RcodeSuccess :: int where "RcodeSuccess = 0"
definition RcodeServerFailure :: int where "RcodeServerFailure = 2"
definition RcodeBadName :: int where "RcodeBadName = 20"
definition OpcodeQuery :: int where "OpcodeQuery = 0"

text \<open>The zero value \<open>&dns.Msg{}\<close>.\<close>

definition new_Msg :: Msg where
  "new_Msg = \<lparr>Id = 0, Response = False, Opcode = 0, Authoritative = False, Truncated = False,
     RecursionDesired = False, RecursionAvailable = False, Zero = False,
     AuthenticatedData = False, CheckingDisabled = False, Rcode = 0, Compress = False,
     Question = [], Answer = [], Ns = [], Extra = []\<rparr>"

text \<open>
  Modelled from the spec: \<open>(*dns.Msg).SetReply\<close> and \<open>SetRcode\<close> belong to the wire library,
  which is not part of the sources. They stamp the request's transaction ID and first
  question (when there is one) onto the reply, mark it as a response with the request's
  opcode (and its flags \<open>rd\<close> and \<open>cd\<close> for a standard query), and set the response code.
\<close>

definition SetReply :: "Msg \<Rightarrow> Msg \<Rightarrow> Msg" where
  "SetReply m request =
     (let m1 = m\<lparr>Id := Id request, Response := True, Opcode := Opcode request\<rparr>;
          m2 = (if Opcode m1 = OpcodeQuery
                then m1\<lparr>RecursionDesired := RecursionDesired request,
                        CheckingDisabled := CheckingDisabled request\<rparr>
                else m1);
          m3 = m2\<lparr>Rcode := RcodeSuccess\<rparr>
      in (case Question request of [] \<Rightarrow> m3 | q # qs \<Rightarrow> m3\<lparr>Question := [q]\<rparr>))"

definition SetRcode :: "Msg \<Rightarrow> Msg \<Rightarrow> int \<Rightarrow> Msg" where
  "SetRcode m request rcode = (SetReply m request)\<lparr>Rcode := rcode\<rparr>"

section \<open>What the program takes from outside \<open>freedns.go\<close>\<close>

text \<open>
  Two tables are used and not defined in this file of the program; they are parameters of
  the model. \<open>IsChinaIP ip\<close> stands for \<open>chinaip.IsChinaIP(ip.String())\<close>, and
  \<open>TypeToString\<close> for the map \<open>dns.TypeToString\<close> (a missing key reads as the empty string).
\<close>

record externals =
  IsChinaIP :: "IP \<Rightarrow> bool"
  TypeToString :: "16 word \<Rightarrow> string"

text \<open>Run-time panics of the Go code that the model keeps as results.\<close>

datatype panic = IndexOutOfRange | TypeAssertionFailed | NilDereference

section \<open>The generic LRU cache\<close>

text \<open>
  The cache stores \<open>interface{}\<close> values; the program stores a \<open>bool\<close> in one cache and a
  \<open>cacheEntry\<close> in the other and downcasts on every read. Instants of \<open>time.Time\<close> are
  counted in nanoseconds on the monotonic clock.
\<close>

record cacheEntry =
  putin :: int
  reply :: Msg

datatype dyn = VBool bool | VCacheEntry cacheEntry

text \<open>
  Modelled from the spec: the LRU cache itself (package \<open>golang-cache\<close>) is not part of the
  sources. It is a bounded mapping, evicting the least recently used entry at capacity,
  where both reads and writes touch an entry. The list holds the most recently used entry
  first.
\<close>

record goc_Cache =
  capacity :: nat
  items :: "(string \<times> dyn) list"

definition NewCache :: "nat \<Rightarrow> goc_Cache" where
  "NewCache n = \<lparr>capacity = n, items = []\<rparr>"

definition cache_Set :: "string \<Rightarrow> dyn \<Rightarrow> goc_Cache \<Rightarrow> goc_Cache" where
  "cache_Set k v c =
     c\<lparr>items := take (capacity c) ((k, v) # filter (\<lambda>p. fst p \<noteq> k) (items c))\<rparr>"

definition cache_Get :: "string \<Rightarrow> goc_Cache \<Rightarrow> dyn option \<times> goc_Cache" where
  "cache_Get k c =
     (case map_of (items c) k of
        None \<Rightarrow> (None, c)
      | Some v \<Rightarrow> (Some v, c\<lparr>items := (k, v) # filter (\<lambda>p. fst p \<noteq> k) (items c)\<rparr>))"

section \<open>The server\<close>

record Config =
  FastDNS :: string
  CleanDNS :: string
  Listen :: string
  CacheSize :: int

text \<open>
  What a request does to the outside world is kept as a trace: the probes of the hosts stub
  and of the answer cache, the exchanges started with an upstream, the messages handed to
  the response writer, and the detached refresh tasks started with \<open>go\<close>.
\<close>

datatype event =
    EvLookupHosts
  | EvCacheGet string
  | EvExchange string string
  | EvWriteMsg Msg
  | EvGoLookupNet Msg string

record Server =
  config :: Config
  chinaDom :: goc_Cache
  cache :: goc_Cache
  trace :: "event list"

definition emit :: "event list \<Rightarrow> Server \<Rightarrow> Server" where
  "emit evs s = s\<lparr>trace := trace s @ evs\<rparr>"

section \<open>The pollution classifier\<close>

definition sections :: "Msg \<Rightarrow> RR list" where
  "sections res = Answer res @ Ns res @ Extra res"

fun is_A :: "RR \<Rightarrow> bool" where
  "is_A (RR_A h ip) = True"
| "is_A (RR_Other h d) = False"

fun containA_loop :: "RR list \<Rightarrow> bool" where
  "containA_loop [] = False"
| "containA_loop (rr # rrs) = (if is_A rr then True else containA_loop rrs)"

definition containA :: "Msg \<Rightarrow> bool" where
  "containA res = containA_loop (sections res)"

fun containChinaIP_loop :: "externals \<Rightarrow> RR list \<Rightarrow> bool" where
  "containChinaIP_loop ext [] = False"
| "containChinaIP_loop ext (RR_A h ip # rrs) =
     (if IsChinaIP ext ip then True else containChinaIP_loop ext rrs)"
| "containChinaIP_loop ext (RR_Other h d # rrs) = containChinaIP_loop ext rrs"

definition containChinaIP :: "externals \<Rightarrow> Msg \<Rightarrow> bool" where
  "containChinaIP ext res = containChinaIP_loop ext (sections res)"

text \<open>\<open>res.Question[0]\<close>: an index out of range panics.\<close>

definition Question0 :: "Msg \<Rightarrow> panic + Question" where
  "Question0 m = (case Question m of [] \<Rightarrow> Inl IndexOutOfRange | q # qs \<Rightarrow> Inr q)"

text \<open>
  \<open>maybePolluted\<close> returns the verdict and the server after the reads and writes of the
  domain-hint store.
\<close>

definition maybePolluted :: "externals \<Rightarrow> Msg \<Rightarrow> Server \<Rightarrow> panic + (bool \<times> Server)" where
  "maybePolluted ext res s =
     (if length (Answer res) + length (Ns res) + length (Extra res) = 0 then Inr (True, s)
      else if containA res then
        (let china = containChinaIP ext res
         in case Question0 res of
              Inl p \<Rightarrow> Inl p
            | Inr q \<Rightarrow> Inr (\<not> china, s\<lparr>chinaDom := cache_Set (Name q) (VBool china) (chinaDom s)\<rparr>))
      else
        (case Question0 res of
           Inl p \<Rightarrow> Inl p
         | Inr q \<Rightarrow>
             (case cache_Get (Name q) (chinaDom s) of
                (Some china, c) \<Rightarrow>
                  (case china of
                     VBool b \<Rightarrow> Inr (\<not> b, s\<lparr>chinaDom := c\<rparr>)
                   | VCacheEntry e \<Rightarrow> Inl TypeAssertionFailed)
              | (None, c) \<Rightarrow> Inr (False, s\<lparr>chinaDom := c\<rparr>))))"

section \<open>The answer cache\<close>

definition genCacheKey :: "externals \<Rightarrow> Msg \<Rightarrow> string \<Rightarrow> panic + string" where
  "genCacheKey ext r net =
     (case Question0 r of
        Inl p \<Rightarrow> Inl p
      | Inr q \<Rightarrow>
          (let s = Name q @ ''_'' @ TypeToString ext (Qtype q);
               s = (if RecursionDesired r then s @ ''_1'' else s @ ''_0'');
               s = s @ ''_'' @ net
           in Inr s))"

text \<open>
  \<open>subTTL\<close>: \<open>delta\<close> is a Go \<open>int\<close> (64 bits, signed); \<open>int(rr.Ttl)\<close> extends the unsigned
  32-bit TTL, and \<open>uint32(newTTL)\<close> keeps the low 32 bits. The flag \<open>needUpdate\<close> is shared
  by the three calls of the closure \<open>S\<close>.
\<close>

definition subTTL_rr :: "64 word \<Rightarrow> RR \<Rightarrow> bool \<Rightarrow> RR \<times> bool" where
  "subTTL_rr delta rr needUpdate =
     (let newTTL = (ucast (Ttl (Header rr)) :: 64 word) - delta;
          clamp = (newTTL \<le>s 0);
          newTTL = (if clamp then 3 else newTTL);
          needUpdate = (if clamp then True else needUpdate)
      in (set_Header rr ((Header rr)\<lparr>Ttl := ucast newTTL\<rparr>), needUpdate))"

fun subTTL_S :: "64 word \<Rightarrow> RR list \<Rightarrow> bool \<Rightarrow> RR list \<times> bool" where
  "subTTL_S delta [] needUpdate = ([], needUpdate)"
| "subTTL_S delta (rr # rrs) needUpdate =
     (case subTTL_rr delta rr needUpdate of
        (rr', needUpdate') \<Rightarrow>
          (case subTTL_S delta rrs needUpdate' of
             (rrs', needUpdate'') \<Rightarrow> (rr' # rrs', needUpdate'')))"

definition subTTL :: "Msg \<Rightarrow> 64 word \<Rightarrow> Msg \<times> bool" where
  "subTTL res delta =
     (case subTTL_S delta (Answer res) False of
        (an, n1) \<Rightarrow>
          (case subTTL_S delta (Ns res) n1 of
             (ns, n2) \<Rightarrow>
               (case subTTL_S delta (Extra res) n2 of
                  (ex, n3) \<Rightarrow> (res\<lparr>Answer := an, Ns := ns, Extra := ex\<rparr>, n3))))"

text \<open>
  \<open>time.Now().Sub(c.putin)\<close> is a \<open>time.Duration\<close>, a signed 64-bit count of nanoseconds
  at which \<open>Sub\<close> saturates.
\<close>

definition time_Sub :: "int \<Rightarrow> int \<Rightarrow> int" where
  "time_Sub t u = max (- (2 ^ 63)) (min (2 ^ 63 - 1) (t - u))"

text \<open>
  \<open>delta := d.Seconds()\<close> is a \<open>float64\<close>. A finite \<open>float64\<close> is kept as the rational it
  denotes, and \<open>fl64\<close> is the rounding every \<open>float64\<close> operation ends with: to the nearest
  value with a 53-bit significand (multiples of \<open>2^-1074\<close> below \<open>2^-1022\<close>), ties to the
  even significand. Overflow to infinity is not modelled; no value here comes near it.
  \<open>bit_len\<close> is the number of binary digits of a natural number.
\<close>

fun bit_len :: "nat \<Rightarrow> nat" where
  "bit_len n = (if n = 0 then 0 else Suc (bit_len (n div 2)))"

declare bit_len.simps [simp del]

definition round_half_even :: "rat \<Rightarrow> int" where
  "round_half_even x =
     (let f = \<lfloor>x\<rfloor>; r = x - of_int f
      in if r < 1 / 2 then f else if 1 / 2 < r then f + 1 else if even f then f else f + 1)"

definition fl64 :: "rat \<Rightarrow> rat" where
  "fl64 x =
     (if x = 0 then 0
      else
        (let a = \<bar>x\<bar>;
             e = int (bit_len (nat \<lfloor>a * 2 ^ 1074\<rfloor>)) - 1075;
             ulp = power_int 2 (max (e - 52) (- 1074))
         in sgn x * of_int (round_half_even (a / ulp)) * ulp))"

text \<open>
  Go's \<open>/\<close> and \<open>%\<close> on integers truncate towards zero. The standard library computes
  \<open>Duration.Seconds\<close> as \<open>sec := d / Second; nsec := d % Second;
  return float64(sec) + float64(nsec)/1e9\<close>: two conversions, a division and an addition,
  each rounded. \<open>int(delta)\<close> then drops the fraction (towards zero).
\<close>

definition go_quot :: "int \<Rightarrow> int \<Rightarrow> int" where
  "go_quot a b = sgn a * sgn b * (\<bar>a\<bar> div \<bar>b\<bar>)"

definition go_rem :: "int \<Rightarrow> int \<Rightarrow> int" where
  "go_rem a b = a - b * go_quot a b"

definition Duration_Seconds :: "int \<Rightarrow> rat" where
  "Duration_Seconds d =
     (let sec = go_quot d 1000000000;
          nsec = go_rem d 1000000000
      in fl64 (fl64 (of_int sec) + fl64 (fl64 (of_int nsec) / 1000000000)))"

definition go_int_of_float :: "rat \<Rightarrow> int" where
  "go_int_of_float x = (if 0 \<le> x then \<lfloor>x\<rfloor> else \<lceil>x\<rceil>)"

definition int_Seconds :: "int \<Rightarrow> 64 word" where
  "int_Seconds d = word_of_int (go_int_of_float (Duration_Seconds d))"

definition setCache :: "externals \<Rightarrow> Msg \<Rightarrow> string \<Rightarrow> int \<Rightarrow> Server \<Rightarrow> panic + Server" where
  "setCache ext res net now s =
     (case genCacheKey ext res net of
        Inl p \<Rightarrow> Inl p
      | Inr key \<Rightarrow>
          Inr (s\<lparr>cache := cache_Set key (VCacheEntry \<lparr>putin = now, reply = res\<rparr>) (cache s)\<rparr>))"

text \<open>
  \<open>LookupCache\<close> at the instant \<open>now\<close>. \<open>c.reply.Copy()\<close> is a deep copy, so that \<open>subTTL\<close>
  rewrites the copy and the stored message stays as it is. The refresh started with \<open>go\<close>
  is recorded in the trace; what it does when it runs is \<open>refresh_task\<close> below.
\<close>

definition LookupCache ::
  "externals \<Rightarrow> Msg \<Rightarrow> string \<Rightarrow> int \<Rightarrow> Server \<Rightarrow> panic + ((Msg option \<times> bool) \<times> Server)" where
  "LookupCache ext req net now s =
     (case genCacheKey ext req net of
        Inl p \<Rightarrow> Inl p
      | Inr key \<Rightarrow>
          (case cache_Get key (cache s) of
             (Some ci, c') \<Rightarrow>
               (case ci of
                  VBool b \<Rightarrow> Inl TypeAssertionFailed
                | VCacheEntry c \<Rightarrow>
                    (let delta = int_Seconds (time_Sub now (putin c));
                         s1 = emit [EvCacheGet key] (s\<lparr>cache := c'\<rparr>)
                     in case subTTL (reply c) delta of
                          (r, needUpdate) \<Rightarrow>
                            Inr ((Some r, True),
                                 if needUpdate then emit [EvGoLookupNet req net] s1 else s1)))
           | (None, c') \<Rightarrow> Inr ((None, False), emit [EvCacheGet key] (s\<lparr>cache := c'\<rparr>))))"

definition LookupHosts :: "Msg \<Rightarrow> Server \<Rightarrow> (Msg option \<times> bool) \<times> Server" where
  "LookupHosts req s = ((None, False), emit [EvLookupHosts] s)"

section \<open>The race between the two upstreams\<close>

text \<open>
  What one channel of \<open>LookupNet\<close> delivers first is decided outside the program: either the
  \<open>nil\<close> of the two-second timer, or what the goroutine \<open>Q\<close> sends once \<open>resolve\<close> has
  returned a message (or \<open>nil\<close>) and an error (or none).
\<close>

datatype outcome = Deadline | Replied "Msg option" bool

text \<open>
  The body of the closure \<open>Q\<close> after \<open>resolve\<close> has returned \<open>(res, err)\<close>; the result is the
  value sent on the channel. The log line written on an error reads \<open>req.Question[0]\<close>.
\<close>

definition Q ::
  "externals \<Rightarrow> Msg \<Rightarrow> bool \<Rightarrow> Msg option \<Rightarrow> bool \<Rightarrow> Server \<Rightarrow> panic + (Msg option \<times> Server)" where
  "Q ext req useClean res err s =
     (if err \<and> Question req = [] then Inl IndexOutOfRange
      else
        (case res of
           None \<Rightarrow> Inr (None, s)
         | Some r \<Rightarrow>
             if \<not> useClean then
               (if Rcode r \<noteq> RcodeSuccess \<or> err then Inr (None, s)
                else
                  (case maybePolluted ext r s of
                     Inl p \<Rightarrow> Inl p
                   | Inr (polluted, s') \<Rightarrow> if polluted then Inr (None, s') else Inr (Some r, s')))
             else Inr (Some r, s)))"

definition chan_recv ::
  "externals \<Rightarrow> Msg \<Rightarrow> bool \<Rightarrow> outcome \<Rightarrow> Server \<Rightarrow> panic + (Msg option \<times> Server)" where
  "chan_recv ext req useClean oc s =
     (case oc of Deadline \<Rightarrow> Inr (None, s) | Replied res err \<Rightarrow> Q ext req useClean res err s)"

text \<open>
  \<open>LookupNet\<close>: \<open>fast\<close> and \<open>clean\<close> are what the two channels deliver, \<open>now\<close> the instant
  read by \<open>setCache\<close>. A panic in either goroutine ends the process. The error result is
  always \<open>nil\<close> and is left out.
\<close>

definition LookupNet ::
  "externals \<Rightarrow> Msg \<Rightarrow> string \<Rightarrow> outcome \<Rightarrow> outcome \<Rightarrow> int \<Rightarrow> Server \<Rightarrow>
     panic + ((Msg option \<times> string) \<times> Server)" where
  "LookupNet ext req net fast clean now s =
     (let s0 = emit [EvExchange (CleanDNS (config s)) net, EvExchange (FastDNS (config s)) net] s
      in case chan_recv ext req True clean s0 of
           Inl p \<Rightarrow> Inl p
         | Inr (cleanRes, s1) \<Rightarrow>
             (case chan_recv ext req False fast s1 of
                Inl p \<Rightarrow> Inl p
              | Inr (Some res, s2) \<Rightarrow>
                  (case setCache ext res net now s2 of
                     Inl p \<Rightarrow> Inl p
                   | Inr s3 \<Rightarrow> Inr ((Some res, FastDNS (config s)), s3))
              | Inr (None, s2) \<Rightarrow>
                  (let res = (case cleanRes of
                                None \<Rightarrow> SetRcode new_Msg req RcodeServerFailure
                              | Some r \<Rightarrow> r)
                   in if Rcode res = RcodeSuccess then
                        (case setCache ext res net now s2 of
                           Inl p \<Rightarrow> Inl p
                         | Inr s3 \<Rightarrow> Inr ((Some res, CleanDNS (config s)), s3))
                      else Inr ((Some res, CleanDNS (config s)), s2))))"

text \<open>
  The detached task started by \<open>LookupCache\<close>: it runs \<open>LookupNet\<close> and logs
  \<open>req.Question[0]\<close> and \<open>res.Rcode\<close>.
\<close>

definition refresh_task ::
  "externals \<Rightarrow> Msg \<Rightarrow> string \<Rightarrow> outcome \<Rightarrow> outcome \<Rightarrow> int \<Rightarrow> Server \<Rightarrow> panic + Server" where
  "refresh_task ext req net fast clean now s =
     (case LookupNet ext req net fast clean now s of
        Inl p \<Rightarrow> Inl p
      | Inr ((res, upstream), s') \<Rightarrow>
          (case Question0 req of
             Inl p \<Rightarrow> Inl p
           | Inr q \<Rightarrow> (case res of None \<Rightarrow> Inl NilDereference | Some r \<Rightarrow> Inr s')))"

section \<open>The request dispatcher\<close>

text \<open>
  The message returned by \<open>LookupNet\<close> is the object that \<open>setCache\<close> has just stored (it
  stores the pointer), and \<open>setCache\<close> runs exactly for a reply with response code
  \<open>NOERROR\<close>. So \<open>res.SetRcode(req, res.Rcode)\<close> in \<open>handle\<close> also rewrites the stored
  message, if the cache still holds it under the key it was stored with.
\<close>

definition cache_alias_write :: "string \<Rightarrow> Msg \<Rightarrow> goc_Cache \<Rightarrow> goc_Cache" where
  "cache_alias_write k m c =
     c\<lparr>items := map (\<lambda>p. if fst p = k
                          then (case snd p of
                                  VCacheEntry e \<Rightarrow> (fst p, VCacheEntry (e\<lparr>reply := m\<rparr>))
                                | VBool b \<Rightarrow> p)
                          else p) (items c)\<rparr>"

definition write_reply :: "Msg \<Rightarrow> Msg option \<Rightarrow> Server \<Rightarrow> panic + Server" where
  "write_reply req res s =
     (case res of
        None \<Rightarrow> Inl NilDereference
      | Some r \<Rightarrow> Inr (emit [EvWriteMsg (SetRcode r req (Rcode r))] s))"

definition handle ::
  "externals \<Rightarrow> Msg \<Rightarrow> string \<Rightarrow> outcome \<Rightarrow> outcome \<Rightarrow> int \<Rightarrow> int \<Rightarrow> Server \<Rightarrow> panic + Server" where
  "handle ext req net fast clean tget tset s =
     (if length (Question req) < 1 then
        Inr (emit [EvWriteMsg (SetRcode new_Msg req RcodeBadName)] s)
      else
        (case LookupHosts req s of
           ((res, hit), s1) \<Rightarrow>
             if hit then write_reply req res s1
             else
               (case LookupCache ext req net tget s1 of
                  Inl p \<Rightarrow> Inl p
                | Inr ((res, hit), s2) \<Rightarrow>
                    if hit then write_reply req res s2
                    else
                      (case LookupNet ext req net fast clean tset s2 of
                         Inl p \<Rightarrow> Inl p
                       | Inr ((res, upstream), s3) \<Rightarrow>
                           (case res of
                              None \<Rightarrow>
                                write_reply req (Some (SetRcode new_Msg req RcodeServerFailure)) s3
                            | Some r \<Rightarrow>
                                (let s4 =
                                   (if Rcode r = RcodeSuccess then
                                      (case genCacheKey ext r net of
                                         Inl p \<Rightarrow> s3
                                       | Inr key \<Rightarrow>
                                           s3\<lparr>cache := cache_alias_write key
                                                 (SetRcode r req (Rcode r)) (cache s3)\<rparr>)
                                    else s3)
                                 in write_reply req (Some r) s4))))))"

section \<open>The states a running server can reach\<close>

text \<open>
  A server starts with two empty caches; afterwards its state changes by handling a
  request, by running a refresh task, and by a fast-upstream goroutine that finishes after
  the deadline of its \<open>LookupNet\<close> (its classification still writes the hint store).
\<close>

inductive reachable :: "externals \<Rightarrow> Server \<Rightarrow> bool" for ext :: externals where
  start: "reachable ext \<lparr>config = cfg, chinaDom = NewCache n, cache = NewCache m, trace = []\<rparr>"
| request: "reachable ext s \<Longrightarrow> handle ext req net fast clean tget tset s = Inr s' \<Longrightarrow>
     reachable ext s'"
| refresh: "reachable ext s \<Longrightarrow> refresh_task ext req net fast clean now s = Inr s' \<Longrightarrow>
     reachable ext s'"
| late_fast: "reachable ext s \<Longrightarrow> Q ext req False res err s = Inr (m', s') \<Longrightarrow>
     reachable ext s'"

section \<open>The cache path as the specification words it\<close>

text \<open>
  The specification's reading of the TTL rewrite, to be compared with \<open>subTTL\<close>: after
  \<open>d\<close> whole seconds a record's TTL is its stored TTL less \<open>d\<close>, and \<open>3\<close> when that is
  zero or negative; a record is expired when the clamp applies to it; the elapsed seconds
  are the floor of the time since insertion (instants in nanoseconds).
  \<open>served_at\<close> is the reply that \<open>LookupCache\<close> computes from an entry at an instant, and
  \<open>ttl_not_above\<close> is the relation of the monotonicity property between the same record
  served earlier and later.
\<close>

definition spec_served_ttl :: "32 word \<Rightarrow> int \<Rightarrow> 32 word" where
  "spec_served_ttl ttl d = (if uint ttl - d \<le> 0 then 3 else word_of_int (uint ttl - d))"

definition spec_serve_rr :: "int \<Rightarrow> RR \<Rightarrow> RR" where
  "spec_serve_rr d rr = set_Header rr ((Header rr)\<lparr>Ttl := spec_served_ttl (Ttl (Header rr)) d\<rparr>)"

definition spec_expired :: "int \<Rightarrow> RR \<Rightarrow> bool" where
  "spec_expired d rr = (uint (Ttl (Header rr)) - d \<le> 0)"

text \<open>
  The specification's fingerprint lowercases the query name; \<open>spec_ascii_lower\<close> is that
  folding of one byte, used to say that two names differ in letter case only.
\<close>

definition spec_ascii_lower :: "char \<Rightarrow> char" where
  "spec_ascii_lower c =
     (case map_of (zip ''ABCDEFGHIJKLMNOPQRSTUVWXYZ'' ''abcdefghijklmnopqrstuvwxyz'') c of
        Some l \<Rightarrow> l
      | None \<Rightarrow> c)"

definition spec_rewrite_ttls :: "int \<Rightarrow> Msg \<Rightarrow> Msg" where
  "spec_rewrite_ttls d m = m\<lparr>Answer := map (spec_serve_rr d) (Answer m),
     Ns := map (spec_serve_rr d) (Ns m), Extra := map (spec_serve_rr d) (Extra m)\<rparr>"

definition spec_elapsed_seconds :: "int \<Rightarrow> int \<Rightarrow> int" where
  "spec_elapsed_seconds now inserted_at = (now - inserted_at) div 1000000000"

definition served_at :: "cacheEntry \<Rightarrow> int \<Rightarrow> Msg" where
  "served_at c now = fst (subTTL (reply c) (int_Seconds (time_Sub now (putin c))))"

definition ttl_not_above :: "RR \<Rightarrow> RR \<Rightarrow> bool" where
  "ttl_not_above earlier later =
     (uint (Ttl (Header later)) \<le> uint (Ttl (Header earlier)) \<or> Ttl (Header later) = 3)"

section \<open>Invariants of the two stores\<close>

text \<open>
  Every value of the domain-hint store is a \<open>bool\<close>; every value of the answer cache is a
  \<open>cacheEntry\<close> whose reply has response code \<open>NOERROR\<close>.
\<close>

definition hints_are_bools :: "Server \<Rightarrow> bool" where
  "hints_are_bools s =
     list_all (\<lambda>p. case snd p of VBool b \<Rightarrow> True | VCacheEntry e \<Rightarrow> False) (items (chinaDom s))"

definition entries_are_NOERROR :: "Server \<Rightarrow> bool" where
  "entries_are_NOERROR s =
     list_all (\<lambda>p. case snd p of VBool b \<Rightarrow> False
                    | VCacheEntry e \<Rightarrow> Rcode (reply e) = RcodeSuccess) (items (cache s))"

section \<open>Concrete inputs\<close>

text \<open>
  Stand-ins for the two outside tables, a configuration, and the messages and server states
  at which the properties below are evaluated.
\<close>

definition example_ext :: externals where
  "example_ext = \<lparr>IsChinaIP = (\<lambda>ip. ip = [220, 181, 38, 148]),
     TypeToString = (\<lambda>t. if t = 1 then ''A'' else if t = 28 then ''AAAA'' else [])\<rparr>"

definition example_cfg :: Config where
  "example_cfg = \<lparr>FastDNS = ''114.114.114.114:53'', CleanDNS = ''8.8.8.8:53'',
     Listen = ''127.0.0.1:53'', CacheSize = 16\<rparr>"

definition baidu_aaaa_reply :: Msg where
  "baidu_aaaa_reply = new_Msg\<lparr>Response := True, RecursionDesired := True,
     Question := [\<lparr>Name = ''baidu.com.'', Qtype = 28, Qclass = 1\<rparr>],
     Answer := [RR_Other \<lparr>Hdr_Name = ''baidu.com.'', Rrtype = 28, Class = 1, Ttl = 60\<rparr>
                  [36, 0, 0, 0, 0, 0, 0, 0, 0, 0, 0, 0, 0, 0, 0, 1]]\<rparr>"

definition hinted_server :: Server where
  "hinted_server = \<lparr>config = example_cfg,
     chinaDom = \<lparr>capacity = 16, items = [(''baidu.com.'', VBool True)]\<rparr>,
     cache = NewCache 16, trace = []\<rparr>"

definition example_query :: Msg where
  "example_query = new_Msg\<lparr>Id := 4660, RecursionDesired := True,
     Question := [\<lparr>Name = ''example.com.'', Qtype = 1, Qclass = 1\<rparr>]\<rparr>"

definition example_reply :: Msg where
  "example_reply = new_Msg\<lparr>Id := 99, Response := True, RecursionDesired := True,
     RecursionAvailable := True,
     Question := [\<lparr>Name = ''example.com.'', Qtype = 1, Qclass = 1\<rparr>],
     Answer := [RR_A \<lparr>Hdr_Name = ''example.com.'', Rrtype = 1, Class = 1, Ttl = 60\<rparr>
                  [93, 184, 216, 34]]\<rparr>"

definition example_entry :: cacheEntry where
  "example_entry = \<lparr>putin = 0, reply = example_reply\<rparr>"

definition old_reply :: Msg where
  "old_reply = new_Msg\<lparr>Id := 99, Response := True, RecursionDesired := True,
     RecursionAvailable := True,
     Question := [\<lparr>Name = ''example.com.'', Qtype = 1, Qclass = 1\<rparr>],
     Answer := [RR_A \<lparr>Hdr_Name = ''example.com.'', Rrtype = 1, Class = 1, Ttl = 16777217\<rparr>
                  [93, 184, 216, 34]]\<rparr>"

definition old_entry :: cacheEntry where
  "old_entry = \<lparr>putin = 0, reply = old_reply\<rparr>"

definition old_cached_server :: Server where
  "old_cached_server = \<lparr>config = example_cfg, chinaDom = NewCache 16,
     cache = \<lparr>capacity = 16, items = [(''example.com._A_1_udp'', VCacheEntry old_entry)]\<rparr>,
     trace = []\<rparr>"

definition cached_server :: Server where
  "cached_server = \<lparr>config = example_cfg, chinaDom = NewCache 16,
     cache = \<lparr>capacity = 16, items = [(''example.com._A_1_udp'', VCacheEntry example_entry)]\<rparr>,
     trace = []\<rparr>"

definition example_query_mixed_case :: Msg where
  "example_query_mixed_case = new_Msg\<lparr>Id := 22136, RecursionDesired := True,
     Question := [\<lparr>Name = ''Example.COM.'', Qtype = 1, Qclass = 1\<rparr>]\<rparr>"

definition questionless_query :: Msg where
  "questionless_query = new_Msg\<lparr>Id := 7\<rparr>"

definition questionless_reply :: Msg where
  "questionless_reply = new_Msg\<lparr>Id := 99, Response := True, RecursionAvailable := True\<rparr>"

definition fresh_server :: Server where
  "fresh_server = \<lparr>config = example_cfg, chinaDom = NewCache 16, cache = NewCache 16, trace = []\<rparr>"

text \<open>
  The second scenario of the specification: a query for \<open>baidu.com\<close> that the fast upstream
  answers with a China address and the clean upstream with another one; then the first
  scenario on the server so reached: a query for \<open>example.com\<close> that the fast upstream
  answers with \<open>8.8.8.8\<close>.
\<close>

definition baidu_query :: Msg where
  "baidu_query = new_Msg\<lparr>Id := 4661, RecursionDesired := True,
     Question := [\<lparr>Name = ''baidu.com.'', Qtype = 1, Qclass = 1\<rparr>]\<rparr>"

definition baidu_fast_reply :: Msg where
  "baidu_fast_reply = new_Msg\<lparr>Id := 100, Response := True, RecursionDesired := True,
     RecursionAvailable := True,
     Question := [\<lparr>Name = ''baidu.com.'', Qtype = 1, Qclass = 1\<rparr>],
     Answer := [RR_A \<lparr>Hdr_Name = ''baidu.com.'', Rrtype = 1, Class = 1, Ttl = 300\<rparr>
                  [220, 181, 38, 148]]\<rparr>"

definition baidu_clean_reply :: Msg where
  "baidu_clean_reply = new_Msg\<lparr>Id := 101, Response := True, RecursionDesired := True,
     RecursionAvailable := True,
     Question := [\<lparr>Name = ''baidu.com.'', Qtype = 1, Qclass = 1\<rparr>],
     Answer := [RR_A \<lparr>Hdr_Name = ''baidu.com.'', Rrtype = 1, Class = 1, Ttl = 300\<rparr>
                  [1, 2, 3, 4]]\<rparr>"

definition example_fast_reply :: Msg where
  "example_fast_reply = new_Msg\<lparr>Id := 102, Response := True, RecursionDesired := True,
     RecursionAvailable := True,
     Question := [\<lparr>Name = ''example.com.'', Qtype = 1, Qclass = 1\<rparr>],
     Answer := [RR_A \<lparr>Hdr_Name = ''example.com.'', Rrtype = 1, Class = 1, Ttl = 60\<rparr>
                  [8, 8, 8, 8]]\<rparr>"

definition after_baidu_request :: Server where
  "after_baidu_request =
     (case handle example_ext baidu_query ''udp'' (Replied (Some baidu_fast_reply) False)
             (Replied (Some baidu_clean_reply) False) 0 1000 fresh_server of
        Inr s \<Rightarrow> s
      | Inl p \<Rightarrow> fresh_server)"

definition baidu_classified :: Server where
  "baidu_classified =
     (emit [EvExchange ''8.8.8.8:53'' ''udp'', EvExchange ''114.114.114.114:53'' ''udp'']
        fresh_server)\<lparr>chinaDom := cache_Set ''baidu.com.'' (VBool True) (chinaDom fresh_server)\<rparr>"

definition example_classified :: Server where
  "example_classified =
     (emit [EvExchange ''8.8.8.8:53'' ''udp'', EvExchange ''114.114.114.114:53'' ''udp'']
        fresh_server)\<lparr>chinaDom := cache_Set ''example.com.'' (VBool False) (chinaDom fresh_server)\<rparr>"

definition after_example_lookup :: Server where
  "after_example_lookup =
     (case LookupNet example_ext example_query ''udp'' (Replied (Some example_fast_reply) False)
             (Replied (Some example_reply) False) 2000 after_baidu_request of
        Inr x \<Rightarrow> snd x
      | Inl p \<Rightarrow> after_baidu_request)"

section \<open>Evaluation of the concrete inputs\<close>

lemmas eval_defs = handle_def LookupHosts_def LookupCache_def LookupNet_def chan_recv_def Q_def
  maybePolluted_def containA_def containChinaIP_def sections_def Question0_def genCacheKey_def
  setCache_def cache_Set_def cache_Get_def cache_alias_write_def write_reply_def emit_def
  SetRcode_def SetReply_def NewCache_def new_Msg_def RcodeSuccess_def RcodeServerFailure_def
  OpcodeQuery_def Let_def example_ext_def example_cfg_def fresh_server_def

lemma handle_baidu:
  "handle example_ext baidu_query ''udp'' (Replied (Some baidu_fast_reply) False)
     (Replied (Some baidu_clean_reply) False) 0 1000 fresh_server = Inr after_baidu_request"
  by (simp add: after_baidu_request_def eval_defs baidu_query_def baidu_fast_reply_def
      baidu_clean_reply_def)

lemma reachable_after_baidu_request: "reachable example_ext after_baidu_request"
proof -
  have "reachable example_ext fresh_server"
    unfolding fresh_server_def by (rule reachable.start)
  then show ?thesis using handle_baidu by (rule reachable.request)
qed

lemma after_baidu_request_stores:
  "items (chinaDom after_baidu_request) = [(''baidu.com.'', VBool True)]"
  "map fst (items (cache after_baidu_request)) = [''baidu.com._A_1_udp'']"
  by (simp_all add: after_baidu_request_def eval_defs baidu_query_def baidu_fast_reply_def
      baidu_clean_reply_def)

lemma LookupNet_example:
  "LookupNet example_ext example_query ''udp'' (Replied (Some example_fast_reply) False)
     (Replied (Some example_reply) False) 2000 after_baidu_request
   = Inr ((Some example_reply, ''8.8.8.8:53''), after_example_lookup)"
  by (simp add: after_example_lookup_def after_baidu_request_def eval_defs baidu_query_def
      baidu_fast_reply_def baidu_clean_reply_def example_query_def example_fast_reply_def
      example_reply_def)

section \<open>The classifier on a reply without A records\<close>

text \<open>
  C1 (as amended). For a reply whose answer, authority and additional sections together
  are non-empty and hold no A record, and whose query name has a boolean entry in the
  domain-hint store, \<open>maybePolluted\<close> returns polluted exactly when the stored hint is
  false (the name is not known as a China domain); the lookup touches the entry.
\<close>

theorem maybePolluted_no_A_hint:
  assumes "sections res \<noteq> []" and "\<not> containA res" and "Question res = q # qs"
    and "map_of (items (chinaDom s)) (Name q) = Some (VBool hint)"
  shows "maybePolluted ext res s =
           Inr (\<not> hint, s\<lparr>chinaDom := snd (cache_Get (Name q) (chinaDom s))\<rparr>)"
  using assms
  by (auto simp add: maybePolluted_def sections_def Question0_def cache_Get_def)

theorem maybePolluted_no_A_hint_witness:
  "maybePolluted example_ext baidu_aaaa_reply hinted_server =
     Inr (\<not> True, hinted_server\<lparr>chinaDom :=
        snd (cache_Get ''baidu.com.'' (chinaDom hinted_server))\<rparr>)"
  using maybePolluted_no_A_hint [of baidu_aaaa_reply
      "\<lparr>Name = ''baidu.com.'', Qtype = 28, Qclass = 1\<rparr>" "[]" hinted_server True example_ext]
  by (simp add: baidu_aaaa_reply_def hinted_server_def sections_def containA_def new_Msg_def)

text \<open>
  C1 as stated fails: an AAAA-only reply for a name whose stored hint is true is classified
  trustworthy, not polluted.
\<close>

theorem maybePolluted_hint_true_counterexample:
  "sections baidu_aaaa_reply \<noteq> [] \<and> \<not> containA baidu_aaaa_reply \<and>
   map_of (items (chinaDom hinted_server)) (Name (hd (Question baidu_aaaa_reply)))
     = Some (VBool True) \<and>
   map_sum id fst (maybePolluted example_ext baidu_aaaa_reply hinted_server) = Inr False"
  by (simp add: maybePolluted_def baidu_aaaa_reply_def hinted_server_def sections_def
      containA_def new_Msg_def Question0_def cache_Get_def)

section \<open>The TTL rewrite\<close>

text \<open>
  For a non-negative \<open>delta\<close> the 64-bit subtraction in \<open>subTTL\<close> does not wrap, and the
  conversion back to 32 bits loses nothing: \<open>subTTL\<close> is the specification's rewrite, and
  its flag says that some record was clamped.
\<close>

lemma ucast_sub_wi:
  fixes ttl :: "32 word" and delta :: "64 word"
  shows "(ucast ttl :: 64 word) - delta = word_of_int (uint ttl - sint delta)"
proof -
  have "(ucast ttl :: 64 word) - delta = word_of_int (uint ttl) - word_of_int (sint delta)"
    by (simp only: ucast_eq of_int_sint scast_id)
  then show ?thesis by (simp only: wi_hom_sub)
qed

lemma sint_ucast_sub:
  fixes ttl :: "32 word" and delta :: "64 word"
  assumes "0 \<le>s delta"
  shows "sint ((ucast ttl :: 64 word) - delta) = uint ttl - sint delta"
proof -
  have d0: "0 \<le> sint delta" using assms by (simp add: word_sle_eq)
  have d1: "sint delta < 2 ^ 63" using sint_lt [of delta] by simp
  have t0: "0 \<le> uint ttl" by simp
  have t1: "uint ttl < 2 ^ 32" using uint_bounded [of ttl] by simp
  have lo: "- (2 ^ 63) \<le> uint ttl - sint delta" using d1 t0 by linarith
  have hi: "uint ttl - sint delta < 2 ^ 63" using d0 t1 by simp
  have "sint ((ucast ttl :: 64 word) - delta) = signed_take_bit 63 (uint ttl - sint delta)"
    by (simp only: ucast_sub_wi sint_sbintrunc') simp
  also have "\<dots> = uint ttl - sint delta"
    using lo hi by (rule signed_take_bit_int_eq_self)
  finally show ?thesis .
qed

lemma subTTL_rr_eq:
  assumes "0 \<le>s delta"
  shows "subTTL_rr delta rr nu = (spec_serve_rr (sint delta) rr, nu \<or> spec_expired (sint delta) rr)"
proof -
  let ?t = "Ttl (Header rr)"
  have s: "sint ((ucast ?t :: 64 word) - delta) = uint ?t - sint delta"
    by (rule sint_ucast_sub [OF assms])
  have c: "((ucast ?t :: 64 word) - delta \<le>s 0) = (uint ?t - sint delta \<le> 0)"
    by (simp add: word_sle_eq s)
  have u: "(ucast ((ucast ?t :: 64 word) - delta) :: 32 word) = word_of_int (uint ?t - sint delta)"
    by (simp only: ucast_sub_wi) (rule ucast_down_wi, simp add: is_down)
  show ?thesis
    by (simp add: subTTL_rr_def Let_def c u spec_serve_rr_def spec_served_ttl_def spec_expired_def)
qed

lemma subTTL_S_eq:
  assumes "0 \<le>s delta"
  shows "subTTL_S delta rrs nu =
           (map (spec_serve_rr (sint delta)) rrs, nu \<or> (\<exists>rr \<in> set rrs. spec_expired (sint delta) rr))"
  by (induction rrs arbitrary: nu) (auto simp add: subTTL_rr_eq [OF assms])

lemma subTTL_eq:
  assumes "0 \<le>s delta"
  shows "subTTL res delta =
           (res\<lparr>Answer := map (spec_serve_rr (sint delta)) (Answer res),
                Ns := map (spec_serve_rr (sint delta)) (Ns res),
                Extra := map (spec_serve_rr (sint delta)) (Extra res)\<rparr>,
            \<exists>rr \<in> set (sections res). spec_expired (sint delta) rr)"
  by (auto simp add: subTTL_def subTTL_S_eq [OF assms] sections_def)

text \<open>
  The rounding \<open>fl64\<close>: within the binade \<open>[2^e, 2^(e+1))\<close> it rounds to the nearest
  multiple of \<open>2^(e-52)\<close>, so it is monotone, exact on integers below \<open>2^53\<close>, and off by
  at most \<open>2^(e-53)\<close>.
\<close>

lemma bit_len_bounds: "0 < n \<Longrightarrow> 2 ^ (bit_len n - 1) \<le> n \<and> n < 2 ^ bit_len n"
proof (induction n rule: bit_len.induct)
  case (1 n)
  show ?case
  proof (cases "n div 2 = 0")
    case True
    with "1.prems" have n1: "n = Suc 0" by (simp add: div_eq_0_iff) 
    have "bit_len (Suc 0) = Suc 0"
      by (simp add: bit_len.simps [of "Suc 0"] bit_len.simps [of 0])
    then show ?thesis by (simp add: n1)
  next
    case False
    then have pos: "0 < n div 2" by simp
    from "1.prems" have n0: "n \<noteq> 0" by simp
    let ?k = "bit_len (n div 2)"
    from "1.IH" [OF n0 pos] have lo: "2 ^ (?k - 1) \<le> n div 2" and hi: "n div 2 < 2 ^ ?k"
      by simp_all
    have k: "0 < ?k" using pos by (simp add: bit_len.simps [of "n div 2"])
    have bl: "bit_len n = Suc ?k" using n0 by (simp add: bit_len.simps [of n])
    have "2 ^ ?k = 2 * 2 ^ (?k - 1)" using k by (cases ?k) simp_all
    also have "\<dots> \<le> 2 * (n div 2)" using lo by simp
    also have "\<dots> \<le> n" by simp
    finally have a: "2 ^ ?k \<le> n" .
    have "n < 2 * (n div 2) + 2" by presburger
    also have "\<dots> \<le> 2 * 2 ^ ?k" using hi by simp
    finally have b: "n < 2 ^ Suc ?k" by simp
    from a b show ?thesis by (simp add: bl)
  qed
qed

lemma rhe_bounds: "\<lfloor>z\<rfloor> \<le> round_half_even z \<and> round_half_even z \<le> \<lfloor>z\<rfloor> + 1"
  by (simp add: round_half_even_def Let_def)

lemma rhe_of_int [simp]: "round_half_even (of_int k) = k"
  by (simp add: round_half_even_def Let_def)

lemma rhe_mono:
  assumes "z \<le> z'"
  shows "round_half_even z \<le> round_half_even z'"
proof (cases "\<lfloor>z\<rfloor> = \<lfloor>z'\<rfloor>")
  case True
  then have "z - of_int \<lfloor>z\<rfloor> \<le> z' - of_int \<lfloor>z'\<rfloor>" using assms by simp
  then show ?thesis using True by (auto simp add: round_half_even_def Let_def)
next
  case False
  have "\<lfloor>z\<rfloor> \<le> \<lfloor>z'\<rfloor>" using assms by (rule floor_mono)
  with False have "\<lfloor>z\<rfloor> + 1 \<le> \<lfloor>z'\<rfloor>" by simp
  with rhe_bounds [of z] rhe_bounds [of z'] show ?thesis by linarith
qed

lemma rhe_err: "\<bar>of_int (round_half_even z) - z\<bar> \<le> 1 / 2"
proof -
  have a: "of_int \<lfloor>z\<rfloor> \<le> z" and b: "z < of_int \<lfloor>z\<rfloor> + 1" by linarith+
  show ?thesis
    unfolding round_half_even_def Let_def
    using a b by (auto simp add: abs_if) linarith+
qed

lemma two_powi_pos [simp]: "0 < power_int (2::rat) e"
  by (simp add: zero_less_power_int)

lemma two_powi_split: "power_int (2::rat) (a + b) = power_int 2 a * power_int 2 b"
  by (simp add: power_int_add)

lemma two_powi_diff: "power_int (2::rat) (a - b) = power_int 2 a / power_int 2 b"
  by (simp add: power_int_diff)

lemma fl64_binade:
  assumes "power_int 2 (- 1022) \<le> x"
  obtains e where "- 1022 \<le> e" and "power_int 2 e \<le> x" and "x < power_int 2 (e + 1)"
    and "fl64 x = of_int (round_half_even (x / power_int 2 (e - 52))) * power_int 2 (e - 52)"
proof -
  define S :: rat where "S = power_int 2 1074"
  have S0: "0 < S" by (simp add: S_def del: power_int_numeral)
  have S: "(2::rat) ^ 1074 = S" by (simp add: S_def)
  have x0: "0 < x" using assms two_powi_pos [of "- 1022"] by (rule less_le_trans [rotated])
  define m where "m = nat \<lfloor>x * S\<rfloor>"
  define k where "k = bit_len m"
  define e where "e = int k - 1075"
  have "power_int 2 (- 1022) * S = power_int (2::rat) 52"
    unfolding S_def by (simp only: two_powi_split [symmetric]) simp
  then have "power_int (2::rat) 52 \<le> x * S"
    using assms S0 by (metis mult_le_cancel_right_pos)
  then have X52: "(2::rat) ^ 52 \<le> x * S" by simp
  then have "(2::int) ^ 52 \<le> \<lfloor>x * S\<rfloor>" by (simp add: le_floor_iff)
  then have m52: "2 ^ 52 \<le> m" unfolding m_def by (simp add: le_nat_iff)
  then have mpos: "0 < m" by (rule less_le_trans [rotated]) simp
  from bit_len_bounds [OF mpos] have lo: "2 ^ (k - 1) \<le> m" and hi: "m < 2 ^ k"
    by (simp_all add: k_def)
  from m52 hi have "(2::nat) ^ 52 < 2 ^ k" by linarith
  then have k52: "52 < k" by (rule power_less_imp_less_exp [rotated]) simp
  then have e1022: "- 1022 \<le> e" by (simp add: e_def)
  have fl: "of_nat m \<le> x * S" "x * S < of_nat m + 1"
    using x0 S0 by (simp_all add: m_def of_nat_nat) linarith+
  have "(2::rat) ^ (k - 1) = of_nat (2 ^ (k - 1))" by simp
  also have "\<dots> \<le> of_nat m" using lo by (simp only: of_nat_le_iff)
  finally have lo': "(2::rat) ^ (k - 1) \<le> x * S" using fl(1) by linarith
  have "of_nat m + (1::rat) = of_nat (Suc m)" by simp
  also have "\<dots> \<le> of_nat (2 ^ k)" using hi by (simp only: of_nat_le_iff Suc_le_eq)
  finally have hi': "x * S < (2::rat) ^ k" using fl(2) by simp
  have pe: "power_int (2::rat) e = 2 ^ (k - 1) / S"
  proof -
    have "e = int (k - 1) - 1074" using k52 by (simp add: e_def)
    then show ?thesis by (simp only: two_powi_diff S_def power_int_of_nat)
  qed
  have pe1: "power_int (2::rat) (e + 1) = 2 ^ k / S"
  proof -
    have "e + 1 = int k - 1074" by (simp add: e_def)
    then show ?thesis by (simp only: two_powi_diff S_def power_int_of_nat)
  qed
  have b1: "power_int 2 e \<le> x" unfolding pe using lo' S0 by (simp add: pos_divide_le_eq)
  have b2: "x < power_int 2 (e + 1)" unfolding pe1 using hi' S0 by (simp add: pos_less_divide_eq)
  have mx: "max (e - 52) (- 1074) = e - 52" using e1022 by simp
  have ee: "int (bit_len (nat \<lfloor>\<bar>x\<bar> * 2 ^ 1074\<rfloor>)) - 1075 = e"
    using x0 by (simp only: S abs_of_pos e_def k_def m_def)
  have "fl64 x = of_int (round_half_even (x / power_int 2 (e - 52))) * power_int 2 (e - 52)"
    using x0 unfolding fl64_def Let_def ee mx by (simp del: power_int_numeral)
  with e1022 b1 b2 show ?thesis by (rule that)
qed

lemma two_powi_mono: "a \<le> b \<Longrightarrow> power_int (2::rat) a \<le> power_int 2 b"
  by (rule power_int_increasing) simp_all

lemma binade_exp_less:
  assumes "power_int 2 e \<le> x" and "x < power_int (2::rat) k"
  shows "e < k"
proof (rule ccontr)
  assume "\<not> e < k"
  then have "power_int (2::rat) k \<le> power_int 2 e" by (intro two_powi_mono) simp
  with assms show False by linarith
qed

lemma binade_unique:
  assumes "power_int 2 e \<le> x" and "x < power_int (2::rat) (e + 1)"
    and "power_int 2 e' \<le> x" and "x < power_int (2::rat) (e' + 1)"
  shows "e = e'"
  using binade_exp_less [OF assms(1) assms(4)] binade_exp_less [OF assms(3) assms(2)] by simp

lemma fl64_eval:
  assumes "- 1022 \<le> e" and "power_int 2 e \<le> x" and "x < power_int 2 (e + 1)"
  shows "fl64 x = of_int (round_half_even (x / power_int 2 (e - 52))) * power_int 2 (e - 52)"
proof -
  have "power_int (2::rat) (- 1022) \<le> power_int 2 e" using assms(1) by (rule two_powi_mono)
  with assms(2) have "power_int 2 (- 1022) \<le> x" by linarith
  then obtain e' where e': "power_int 2 e' \<le> x" "x < power_int 2 (e' + 1)"
    "fl64 x = of_int (round_half_even (x / power_int 2 (e' - 52))) * power_int 2 (e' - 52)"
    by (rule fl64_binade)
  from binade_unique [OF assms(2,3) e'(1,2)] e'(3) show ?thesis by simp
qed

lemma fl64_ge_grid:
  assumes "- 1022 \<le> e" and "power_int 2 e \<le> x" and "x < power_int 2 (e + 1)"
    and "of_int m * power_int 2 (e - 52) \<le> x"
  shows "of_int m * power_int 2 (e - 52) \<le> fl64 x"
proof -
  let ?u = "power_int (2::rat) (e - 52)"
  have "of_int m \<le> x / ?u" using assms(4) by (simp add: pos_le_divide_eq)
  then have "round_half_even (of_int m) \<le> round_half_even (x / ?u)" by (rule rhe_mono)
  then have "(of_int m :: rat) \<le> of_int (round_half_even (x / ?u))" by simp
  then have "of_int m * ?u \<le> of_int (round_half_even (x / ?u)) * ?u"
    by (simp add: mult_le_cancel_right_pos)
  then show ?thesis by (simp only: fl64_eval [OF assms(1-3)])
qed

lemma fl64_le_grid:
  assumes "- 1022 \<le> e" and "power_int 2 e \<le> x" and "x < power_int 2 (e + 1)"
    and "x \<le> of_int m * power_int 2 (e - 52)"
  shows "fl64 x \<le> of_int m * power_int 2 (e - 52)"
proof -
  let ?u = "power_int (2::rat) (e - 52)"
  have "x / ?u \<le> of_int m" using assms(4) by (simp add: pos_divide_le_eq)
  then have "round_half_even (x / ?u) \<le> round_half_even (of_int m)" by (rule rhe_mono)
  then have "(of_int (round_half_even (x / ?u)) :: rat) \<le> of_int m" by simp
  then have "of_int (round_half_even (x / ?u)) * ?u \<le> of_int m * ?u"
    by (simp add: mult_le_cancel_right_pos)
  then show ?thesis by (simp only: fl64_eval [OF assms(1-3)])
qed

lemma grid_two_powi: "of_int (2 ^ nat (k - (e - 52))) * power_int (2::rat) (e - 52) = power_int 2 k"
  if "e - 52 \<le> k"
proof -
  have "(of_int (2 ^ nat (k - (e - 52))) :: rat) = power_int 2 (k - (e - 52))"
    using that by (simp add: power_int_def)
  then show ?thesis by (simp only: two_powi_split [symmetric]) simp
qed

lemma fl64_binade_bounds:
  assumes "- 1022 \<le> e" and "power_int 2 e \<le> x" and "x < power_int 2 (e + 1)"
  shows "power_int 2 e \<le> fl64 x" and "fl64 x \<le> power_int 2 (e + 1)"
proof -
  have g0: "of_int (2 ^ nat (e - (e - 52))) * power_int (2::rat) (e - 52) = power_int 2 e"
    by (rule grid_two_powi) simp
  have g1: "of_int (2 ^ nat (e + 1 - (e - 52))) * power_int (2::rat) (e - 52) = power_int 2 (e + 1)"
    by (rule grid_two_powi) simp
  show "power_int 2 e \<le> fl64 x"
    using fl64_ge_grid [OF assms, of "2 ^ nat (e - (e - 52))"] assms(2) by (simp only: g0)
  show "fl64 x \<le> power_int 2 (e + 1)"
    using fl64_le_grid [OF assms, of "2 ^ nat (e + 1 - (e - 52))"] assms(3) by (simp only: g1)
qed

lemma fl64_err:
  assumes "- 1022 \<le> e" and "power_int 2 e \<le> x" and "x < power_int 2 (e + 1)"
  shows "\<bar>fl64 x - x\<bar> \<le> power_int 2 (e - 53)"
proof -
  let ?u = "power_int (2::rat) (e - 52)"
  let ?z = "x / ?u"
  have "fl64 x - x = (of_int (round_half_even ?z) - ?z) * ?u"
    by (simp add: fl64_eval [OF assms] algebra_simps)
  then have "\<bar>fl64 x - x\<bar> = \<bar>of_int (round_half_even ?z) - ?z\<bar> * ?u"
    by (simp add: abs_mult)
  also have "\<dots> \<le> 1 / 2 * ?u" using rhe_err [of ?z] by (simp add: mult_le_cancel_right_pos)
  also have "\<dots> = power_int 2 (e - 53)"
  proof -
    have "e - 52 = (e - 53) + 1" by simp
    then show ?thesis by (simp only: two_powi_split) simp
  qed
  finally show ?thesis .
qed

lemma fl64_normal_mono:
  assumes "power_int 2 (- 1022) \<le> x" and "x \<le> x'"
  shows "fl64 x \<le> fl64 x'"
proof -
  from assms(1) obtain e where e: "- 1022 \<le> e" "power_int 2 e \<le> x" "x < power_int 2 (e + 1)"
    by (rule fl64_binade)
  from assms have "power_int 2 (- 1022) \<le> x'" by linarith
  then obtain e' where e': "- 1022 \<le> e'" "power_int 2 e' \<le> x'" "x' < power_int 2 (e' + 1)"
    by (rule fl64_binade)
  have "power_int 2 e \<le> x'" using e(2) assms(2) by linarith
  from binade_exp_less [OF this e'(3)] have le: "e \<le> e'" by simp
  show ?thesis
  proof (cases "e = e'")
    case True
    let ?u = "power_int (2::rat) (e - 52)"
    have "x / ?u \<le> x' / ?u" using assms(2) by (intro divide_right_mono) simp_all
    then have "round_half_even (x / ?u) \<le> round_half_even (x' / ?u)" by (rule rhe_mono)
    then have "(of_int (round_half_even (x / ?u)) :: rat) * ?u \<le> of_int (round_half_even (x' / ?u)) * ?u"
      by (simp add: mult_le_cancel_right_pos)
    then show ?thesis
      using fl64_eval [OF e] fl64_eval [OF e' [folded True]] by simp
  next
    case False
    with le have "e + 1 \<le> e'" by simp
    then have "power_int (2::rat) (e + 1) \<le> power_int 2 e'" by (rule two_powi_mono)
    with fl64_binade_bounds(2) [OF e] fl64_binade_bounds(1) [OF e'] show ?thesis by linarith
  qed
qed

lemma fl64_0 [simp]: "fl64 0 = 0"
  by (simp add: fl64_def)

lemma fl64_normal_ge: "power_int 2 (- 1022) \<le> x \<Longrightarrow> power_int 2 (- 1022) \<le> fl64 x"
proof -
  assume a: "power_int 2 (- 1022) \<le> x"
  then obtain e where e: "- 1022 \<le> e" "power_int 2 e \<le> x" "x < power_int 2 (e + 1)"
    by (rule fl64_binade)
  have "power_int (2::rat) (- 1022) \<le> power_int 2 e" using e(1) by (rule two_powi_mono)
  with fl64_binade_bounds(1) [OF e] show ?thesis by linarith
qed

lemma fl64_int_bounds:
  assumes "power_int 2 (- 1022) \<le> x" and "x < 2 ^ 53"
  shows "of_int n \<le> x \<Longrightarrow> of_int n \<le> fl64 x" and "x \<le> of_int n \<Longrightarrow> fl64 x \<le> of_int n"
proof -
  from assms(1) obtain e where e: "- 1022 \<le> e" "power_int 2 e \<le> x" "x < power_int 2 (e + 1)"
    by (rule fl64_binade)
  have "x < power_int 2 53" using assms(2) by simp
  from binade_exp_less [OF e(2) this] have e52: "e - 52 \<le> 0" by simp
  have g: "of_int (n * 2 ^ nat (0 - (e - 52))) * power_int (2::rat) (e - 52) = of_int n"
    using grid_two_powi [OF e52] by (simp add: mult.assoc)
  show "of_int n \<le> x \<Longrightarrow> of_int n \<le> fl64 x"
    using fl64_ge_grid [OF e, of "n * 2 ^ nat (0 - (e - 52))"] by (simp only: g)
  show "x \<le> of_int n \<Longrightarrow> fl64 x \<le> of_int n"
    using fl64_le_grid [OF e, of "n * 2 ^ nat (0 - (e - 52))"] by (simp only: g)
qed

lemma fl64_of_int:
  assumes "0 \<le> n" and "n < 2 ^ 53"
  shows "fl64 (of_int n) = of_int n"
proof (cases "n = 0")
  case True
  then show ?thesis by simp
next
  case False
  with assms(1) have "1 \<le> n" by simp
  then have "(1::rat) \<le> of_int n" by simp
  moreover have "power_int (2::rat) (- 1022) \<le> 1" by (simp add: power_int_minus field_simps)
  ultimately have a: "power_int 2 (- 1022) \<le> (of_int n :: rat)" by linarith
  have b: "(of_int n :: rat) < 2 ^ 53" using assms(2) by (metis of_int_less_numeral_power_cancel_iff)
  from fl64_int_bounds [OF a b, of n] show ?thesis by simp
qed

lemma rhe_frac:
  assumes "0 < q"
  shows "round_half_even (of_int p / of_int q) =
           (if 2 * (p mod q) < q then p div q
            else if q < 2 * (p mod q) then p div q + 1
            else if even (p div q) then p div q else p div q + 1)"
proof -
  have q0: "(0::rat) < of_int q" using assms by simp
  have fl: "\<lfloor>(of_int p / of_int q :: rat)\<rfloor> = p div q" by (simp add: floor_divide_of_int_eq)
  have "(of_int p :: rat) = of_int (q * (p div q) + p mod q)" by simp
  also have "\<dots> = of_int q * of_int (p div q) + of_int (p mod q)" by (simp only: of_int_add of_int_mult)
  finally have "(of_int p / of_int q :: rat) = of_int (p div q) + of_int (p mod q) / of_int q"
    using q0 by (simp add: field_simps)
  then have fr: "(of_int p / of_int q :: rat) - of_int (p div q) = of_int (p mod q) / of_int q"
    by simp
  have lt: "((of_int (p mod q) / of_int q :: rat) < 1 / 2) = (2 * (p mod q) < q)"
  proof -
    have "((of_int (p mod q) / of_int q :: rat) < 1 / 2) = ((of_int (2 * (p mod q)) :: rat) < of_int q)"
      using q0 by (simp add: field_simps)
    then show ?thesis by (simp only: of_int_less_iff)
  qed
  have gt: "(1 / 2 < (of_int (p mod q) / of_int q :: rat)) = (q < 2 * (p mod q))"
  proof -
    have "(1 / 2 < (of_int (p mod q) / of_int q :: rat)) = ((of_int q :: rat) < of_int (2 * (p mod q)))"
      using q0 by (simp add: field_simps)
    then show ?thesis by (simp only: of_int_less_iff)
  qed
  show ?thesis
    unfolding round_half_even_def Let_def fl fr lt gt by (rule refl)
qed

text \<open>
  \<open>Duration.Seconds\<close> of a non-negative duration lies between the whole seconds and one
  more, is monotone, and stays below the next whole second for a duration of less than
  \<open>2^24\<close> seconds; so \<open>int(d.Seconds())\<close> is the floor of the seconds there, and the floor or
  one more beyond.
\<close>

lemma go_quot_rem_nonneg:
  assumes "0 \<le> d"
  shows "go_quot d 1000000000 = d div 1000000000" and "go_rem d 1000000000 = d mod 1000000000"
proof -
  show q: "go_quot d 1000000000 = d div 1000000000"
    using assms by (cases "d = 0") (simp_all add: go_quot_def)
  show "go_rem d 1000000000 = d mod 1000000000"
    unfolding go_rem_def q by (simp add: minus_mult_div_eq_mod)
qed

lemma tiny_le: "power_int (2::rat) (- 1022) \<le> 1 / 1000000000"
  by (simp add: power_int_minus field_simps)

lemma fl64_frac:
  assumes "0 \<le> n" and "n < 1000000000"
  shows "0 \<le> fl64 (of_int n / 1000000000)"
    and "fl64 (of_int n / 1000000000) \<le> 1"
    and "fl64 (of_int n / 1000000000) = 0 \<or> power_int 2 (- 1022) \<le> fl64 (of_int n / 1000000000)"
    and "fl64 (of_int n / 1000000000) \<le> of_int n / 1000000000 + power_int 2 (- 54)"
proof -
  let ?x = "of_int n / 1000000000 :: rat"
  have all: "0 \<le> fl64 ?x \<and> fl64 ?x \<le> 1 \<and> (fl64 ?x = 0 \<or> power_int 2 (- 1022) \<le> fl64 ?x)
      \<and> fl64 ?x \<le> ?x + power_int 2 (- 54)"
  proof (cases "n = 0")
    case True
    then show ?thesis by simp
  next
    case False
    with assms(1) have "1 \<le> n" by simp
    then have "(1::rat) \<le> of_int n" by simp
    then have "1 / 1000000000 \<le> ?x" by (simp add: divide_right_mono)
    with tiny_le have a: "power_int 2 (- 1022) \<le> ?x" by linarith
    have "(of_int n :: rat) < 1000000000" using assms(2) by (metis of_int_less_numeral_iff)
    then have x1: "?x < 1" by simp
    then have b: "?x < 2 ^ 53" by (rule less_trans) simp
    have x0: "0 \<le> ?x" using assms(1) by simp
    from fl64_int_bounds(1) [OF a b, of 0] x0 have c1: "0 \<le> fl64 ?x" by simp
    from fl64_int_bounds(2) [OF a b, of 1] x1 have c2: "fl64 ?x \<le> 1" by simp
    from a obtain e where e: "- 1022 \<le> e" "power_int 2 e \<le> ?x" "?x < power_int 2 (e + 1)"
      by (rule fl64_binade)
    have "?x < power_int 2 0" using x1 by simp
    from binade_exp_less [OF e(2) this] have "e - 53 \<le> - 54" by simp
    then have "power_int (2::rat) (e - 53) \<le> power_int 2 (- 54)" by (rule two_powi_mono)
    with fl64_err [OF e] have c4: "fl64 ?x \<le> ?x + power_int 2 (- 54)" by linarith
    from c1 c2 fl64_normal_ge [OF a] c4 show ?thesis by blast
  qed
  from all show "0 \<le> fl64 ?x" "fl64 ?x \<le> 1"
    "fl64 ?x = 0 \<or> power_int 2 (- 1022) \<le> fl64 ?x" "fl64 ?x \<le> ?x + power_int 2 (- 54)"
    by blast+
qed

lemma fl64_frac_mono:
  assumes "0 \<le> n" and "n \<le> n'" and "n' < 1000000000"
  shows "fl64 (of_int n / 1000000000) \<le> fl64 (of_int n' / 1000000000)"
proof (cases "n = 0")
  case True
  with fl64_frac(1) [of n'] assms show ?thesis by simp
next
  case False
  with assms(1) have "1 \<le> n" by simp
  then have "(1::rat) \<le> of_int n" by simp
  then have "1 / 1000000000 \<le> (of_int n / 1000000000 :: rat)" by (simp add: divide_right_mono)
  with tiny_le have a: "power_int 2 (- 1022) \<le> (of_int n / 1000000000 :: rat)" by linarith
  have "(of_int n / 1000000000 :: rat) \<le> of_int n' / 1000000000"
    using assms(2) by (simp add: divide_right_mono)
  with a show ?thesis by (rule fl64_normal_mono)
qed

text \<open>The sum stage: an integer part below \<open>2^52\<close> and a fraction in \<open>[0, 1]\<close>.\<close>

lemma fl64_sum:
  assumes "0 \<le> s" and "s < 2 ^ 52" and "0 \<le> y" and "y \<le> 1" and "y = 0 \<or> power_int 2 (- 1022) \<le> y"
  shows "of_int s \<le> fl64 (of_int s + y)" and "fl64 (of_int s + y) \<le> of_int s + 1"
    and "of_int s + y = 0 \<or> power_int 2 (- 1022) \<le> of_int s + y"
proof -
  let ?x = "of_int s + y :: rat"
  have nz: "?x = 0 \<or> power_int 2 (- 1022) \<le> ?x"
  proof (cases "s = 0")
    case True
    with assms(5) show ?thesis by simp
  next
    case False
    with assms(1) have "1 \<le> s" by simp
    then have "(1::rat) \<le> of_int s" by simp
    moreover have "power_int (2::rat) (- 1022) \<le> 1" by (simp add: power_int_minus field_simps)
    ultimately show ?thesis using assms(3) by linarith
  qed
  have "(of_int s :: rat) < 2 ^ 52" using assms(2) by (metis of_int_less_numeral_power_cancel_iff)
  then have b: "?x < 2 ^ 53" using assms(4) by simp
  have both: "of_int s \<le> fl64 ?x \<and> fl64 ?x \<le> of_int s + 1"
  proof (cases "?x = 0")
    case True
    with assms(1,3) have "s = 0" by (smt (verit) of_int_0_le_iff of_int_eq_0_iff add_nonneg_eq_0_iff)
    with True show ?thesis by simp
  next
    case False
    with nz have a: "power_int 2 (- 1022) \<le> ?x" by simp
    from fl64_int_bounds(1) [OF a b, of s] assms(3) have 1: "of_int s \<le> fl64 ?x" by simp
    from fl64_int_bounds(2) [OF a b, of "s + 1"] assms(4) have 2: "fl64 ?x \<le> of_int s + 1" by simp
    from 1 2 show ?thesis ..
  qed
  from both nz show "of_int s \<le> fl64 ?x" "fl64 ?x \<le> of_int s + 1"
    "?x = 0 \<or> power_int 2 (- 1022) \<le> ?x" by blast+
qed

lemma Duration_Seconds_nonneg:
  assumes "0 \<le> d" and "d < 2 ^ 63"
  shows "Duration_Seconds d =
           fl64 (of_int (d div 1000000000) + fl64 (of_int (d mod 1000000000) / 1000000000))"
proof -
  have s0: "0 \<le> d div 1000000000" using assms(1) by (simp add: pos_imp_zdiv_nonneg_iff)
  have "d div 1000000000 \<le> d div 1" using assms(1) by (intro zdiv_mono2) simp_all
  then have s1: "d div 1000000000 < 2 ^ 53" using assms(2) by simp
  have n0: "0 \<le> d mod 1000000000" by simp
  have n1: "d mod 1000000000 < 2 ^ 53"
    using pos_mod_bound [of 1000000000 d] by simp
  show ?thesis
    by (simp add: Duration_Seconds_def Let_def go_quot_rem_nonneg [OF assms(1)]
        fl64_of_int [OF s0 s1] fl64_of_int [OF n0 n1])
qed

lemma sec_small:
  fixes d :: int
  assumes "0 \<le> d" and "d < 2 ^ 63"
  shows "0 \<le> d div 1000000000" and "d div 1000000000 < 2 ^ 34"
proof -
  show "0 \<le> d div 1000000000" using assms(1) by (simp add: pos_imp_zdiv_nonneg_iff)
  have "d div 1000000000 \<le> (2 ^ 63) div 1000000000"
    using assms(2) by (intro zdiv_mono1) simp_all
  then show "d div 1000000000 < 2 ^ 34" by simp
qed

lemma Duration_Seconds_bounds:
  assumes "0 \<le> d" and "d < 2 ^ 63"
  shows "of_int (d div 1000000000) \<le> Duration_Seconds d"
    and "Duration_Seconds d \<le> of_int (d div 1000000000) + 1"
proof -
  let ?s = "d div 1000000000" and ?n = "d mod 1000000000"
  have n: "0 \<le> ?n" "?n < 1000000000" by simp_all
  have s: "0 \<le> ?s" "?s < 2 ^ 52" using sec_small [OF assms] by simp_all
  note f = fl64_frac [OF n]
  from fl64_sum(1,2) [OF s f(1) f(2) f(3)]
  show "of_int ?s \<le> Duration_Seconds d" "Duration_Seconds d \<le> of_int ?s + 1"
    by (simp_all only: Duration_Seconds_nonneg [OF assms])
qed

lemma Duration_Seconds_mono:
  assumes "0 \<le> d" and "d \<le> d'" and "d' < 2 ^ 63"
  shows "Duration_Seconds d \<le> Duration_Seconds d'"
proof -
  let ?s = "d div 1000000000" and ?n = "d mod 1000000000"
  let ?s' = "d' div 1000000000" and ?n' = "d' mod 1000000000"
  have d': "0 \<le> d'" using assms by simp
  have d: "d < 2 ^ 63" using assms by simp
  have ss: "?s \<le> ?s'" using assms(2) by (intro zdiv_mono1) simp_all
  show ?thesis
  proof (cases "?s = ?s'")
    case False
    with ss have "?s + 1 \<le> ?s'" by simp
    then have "(of_int ?s + 1 :: rat) \<le> of_int ?s'" by (metis of_int_1 of_int_add of_int_le_iff)
    with Duration_Seconds_bounds(2) [OF assms(1) d] Duration_Seconds_bounds(1) [OF d' assms(3)]
    show ?thesis by linarith
  next
    case True
    have "d = ?s * 1000000000 + ?n" "d' = ?s' * 1000000000 + ?n'" by simp_all
    with True assms(2) have nn: "?n \<le> ?n'" by linarith
    have n: "0 \<le> ?n" "?n < 1000000000" and n': "0 \<le> ?n'" "?n' < 1000000000" by simp_all
    have s: "0 \<le> ?s" "?s < 2 ^ 52" using sec_small [OF assms(1) d] by simp_all
    note f = fl64_frac [OF n]
    have ym: "fl64 (of_int ?n / 1000000000) \<le> fl64 (of_int ?n' / 1000000000)"
      using n(1) nn n'(2) by (rule fl64_frac_mono)
    let ?x = "of_int ?s + fl64 (of_int ?n / 1000000000) :: rat"
    let ?x' = "of_int ?s + fl64 (of_int ?n' / 1000000000) :: rat"
    have xm: "?x \<le> ?x'" using ym by simp
    have "fl64 ?x \<le> fl64 ?x'"
    proof (cases "?x = 0")
      case True
      have "0 \<le> ?x'" using s(1) fl64_frac(1) [OF n'] by simp
      moreover have "?x' = 0 \<or> power_int 2 (- 1022) \<le> ?x'"
        by (rule fl64_sum(3) [OF s fl64_frac(1) [OF n'] fl64_frac(2) [OF n'] fl64_frac(3) [OF n']])
      ultimately have "0 \<le> fl64 ?x'"
      proof (cases "?x' = 0")
        case True
        then show ?thesis by (simp only: fl64_0)
      next
        case False
        assume "?x' = 0 \<or> power_int 2 (- 1022) \<le> ?x'"
        with False have "power_int 2 (- 1022) \<le> ?x'" by simp
        from fl64_normal_ge [OF this] two_powi_pos [of "- 1022"] show ?thesis by linarith
      qed
      with True show ?thesis by simp
    next
      case False
      with fl64_sum(3) [OF s f(1) f(2) f(3)] have "power_int 2 (- 1022) \<le> ?x" by simp
      then show ?thesis using xm by (rule fl64_normal_mono)
    qed
    then show ?thesis
      by (simp only: Duration_Seconds_nonneg [OF assms(1) d] Duration_Seconds_nonneg [OF d' assms(3)]
          True [symmetric])
  qed
qed

lemma Duration_Seconds_young:
  assumes "0 \<le> d" and "d < 2 ^ 24 * 1000000000"
  shows "Duration_Seconds d < of_int (d div 1000000000) + 1"
proof -
  let ?s = "d div 1000000000" and ?n = "d mod 1000000000"
  have d63: "d < 2 ^ 63" using assms(2) by simp
  have n: "0 \<le> ?n" "?n < 1000000000" by simp_all
  have s: "0 \<le> ?s" "?s < 2 ^ 52" using sec_small [OF assms(1) d63] by simp_all
  have s24: "?s < 2 ^ 24" using assms(2) by (simp add: div_less_iff_less_mult)
  note f = fl64_frac [OF n]
  let ?y = "fl64 (of_int ?n / 1000000000)"
  let ?x = "of_int ?s + ?y :: rat"
  have "?n \<le> 999999999" using n(2) by simp
  then have "(of_int ?n :: rat) \<le> 999999999" by (metis of_int_le_numeral_iff)
  then have n9: "(of_int ?n / 1000000000 :: rat) \<le> 999999999 / 1000000000"
    by (simp add: divide_right_mono)
  show ?thesis
  proof (cases "?x = 0")
    case True
    have "fl64 ?x = 0" by (simp only: True fl64_0)
    moreover have "(0::rat) < of_int ?s + 1" using s(1) by (simp add: add_nonneg_pos)
    ultimately show ?thesis by (simp only: Duration_Seconds_nonneg [OF assms(1) d63])
  next
    case False
    with fl64_sum(3) [OF s f(1) f(2) f(3)] have a: "power_int 2 (- 1022) \<le> ?x" by simp
    then obtain e where e: "- 1022 \<le> e" "power_int 2 e \<le> ?x" "?x < power_int 2 (e + 1)"
      by (rule fl64_binade)
    have "?s + 1 \<le> 2 ^ 24" using s24 by simp
    then have "(of_int ?s + 1 :: rat) \<le> 2 ^ 24" by (metis of_int_1 of_int_add of_int_le_numeral_power_cancel_iff)
    moreover have "?y < 1" using f(4) n9 by (simp add: power_int_minus field_simps) 
    ultimately have "?x < power_int 2 24" by simp
    from binade_exp_less [OF e(2) this] have "e - 53 \<le> - 30" by simp
    then have "power_int (2::rat) (e - 53) \<le> power_int 2 (- 30)" by (rule two_powi_mono)
    with fl64_err [OF e] have "fl64 ?x \<le> ?x + power_int 2 (- 30)" by linarith
    also have "\<dots> \<le> of_int ?s + (999999999 / 1000000000 + power_int 2 (- 54) + power_int 2 (- 30))"
      using f(4) n9 by linarith
    also have "\<dots> < of_int ?s + 1" by (simp add: power_int_minus field_simps)
    finally show ?thesis by (simp only: Duration_Seconds_nonneg [OF assms(1) d63])
  qed
qed

lemma time_Sub_elapsed:
  assumes "u \<le> t"
  shows "time_Sub t u = min (2 ^ 63 - 1) (t - u)" and "0 \<le> time_Sub t u"
    and "time_Sub t u < 2 ^ 63"
  using assms by (simp_all add: time_Sub_def)

lemma int_Seconds_sint:
  assumes "0 \<le> d" and "d < 2 ^ 63"
  shows "sint (int_Seconds d) = \<lfloor>Duration_Seconds d\<rfloor>"
    and "d div 1000000000 \<le> sint (int_Seconds d)"
    and "sint (int_Seconds d) \<le> d div 1000000000 + 1"
    and "0 \<le> sint (int_Seconds d)"
proof -
  let ?s = "d div 1000000000"
  note b = Duration_Seconds_bounds [OF assms]
  note s = sec_small [OF assms]
  have "(0::rat) \<le> of_int ?s" using s(1) by simp
  with b(1) have nn: "0 \<le> Duration_Seconds d" by linarith
  have lo: "?s \<le> \<lfloor>Duration_Seconds d\<rfloor>" using b(1) by (simp add: le_floor_iff)
  have "Duration_Seconds d \<le> of_int (?s + 1)" using b(2) by simp
  then have "\<lfloor>Duration_Seconds d\<rfloor> \<le> \<lfloor>(of_int (?s + 1) :: rat)\<rfloor>" by (rule floor_mono)
  then have hi: "\<lfloor>Duration_Seconds d\<rfloor> \<le> ?s + 1" by (simp only: floor_of_int)
  have "0 \<le> \<lfloor>Duration_Seconds d\<rfloor>" using lo s(1) by linarith
  then have r0: "- (2 ^ 63) \<le> \<lfloor>Duration_Seconds d\<rfloor>" by simp
  have "\<lfloor>Duration_Seconds d\<rfloor> < 2 ^ 34 + 1" using hi s(2) by linarith
  also have "\<dots> < (2 ^ 63 :: int)" by simp
  finally have r1: "\<lfloor>Duration_Seconds d\<rfloor> < 2 ^ 63" .
  have "sint (int_Seconds d) = signed_take_bit 63 \<lfloor>Duration_Seconds d\<rfloor>"
    using nn by (simp add: int_Seconds_def go_int_of_float_def sint_sbintrunc')
  also have "\<dots> = \<lfloor>Duration_Seconds d\<rfloor>" using r0 r1 by (rule signed_take_bit_int_eq_self)
  finally show e: "sint (int_Seconds d) = \<lfloor>Duration_Seconds d\<rfloor>" .
  show "?s \<le> sint (int_Seconds d)" using lo by (simp only: e)
  show "sint (int_Seconds d) \<le> ?s + 1" using hi by (simp only: e)
  show "0 \<le> sint (int_Seconds d)" using lo s(1) by (simp only: e)
qed

lemma int_Seconds_mono:
  assumes "0 \<le> d" and "d \<le> d'" and "d' < 2 ^ 63"
  shows "sint (int_Seconds d) \<le> sint (int_Seconds d')"
proof -
  have d: "d < 2 ^ 63" and d': "0 \<le> d'" using assms by simp_all
  have "\<lfloor>Duration_Seconds d\<rfloor> \<le> \<lfloor>Duration_Seconds d'\<rfloor>"
    using Duration_Seconds_mono [OF assms] by (rule floor_mono)
  then show ?thesis
    by (simp only: int_Seconds_sint(1) [OF assms(1) d] int_Seconds_sint(1) [OF d' assms(3)])
qed

lemma int_Seconds_young:
  assumes "0 \<le> d" and "d < 2 ^ 24 * 1000000000"
  shows "sint (int_Seconds d) = d div 1000000000"
    and "int_Seconds d = word_of_int (d div 1000000000)"
proof -
  have d63: "d < 2 ^ 63" using assms(2) by simp
  have "Duration_Seconds d < of_int (d div 1000000000 + 1)"
    using Duration_Seconds_young [OF assms] by simp
  then have "\<lfloor>Duration_Seconds d\<rfloor> < d div 1000000000 + 1" by (simp only: floor_less_iff)
  then have "sint (int_Seconds d) < d div 1000000000 + 1"
    by (simp only: int_Seconds_sint(1) [OF assms(1) d63])
  with int_Seconds_sint(2) [OF assms(1) d63]
  show e: "sint (int_Seconds d) = d div 1000000000" by linarith
  have "int_Seconds d = word_of_int (sint (int_Seconds d))" by simp
  then show "int_Seconds d = word_of_int (d div 1000000000)" by (simp only: e)
qed

lemma int_Seconds_elapsed:
  assumes "u \<le> t"
  shows "0 \<le>s int_Seconds (time_Sub t u)" and "0 \<le> sint (int_Seconds (time_Sub t u))"
proof -
  note t = time_Sub_elapsed [OF assms]
  show "0 \<le> sint (int_Seconds (time_Sub t u))" by (rule int_Seconds_sint(4) [OF t(2) t(3)])
  then show "0 \<le>s int_Seconds (time_Sub t u)" by (simp add: word_sle_eq)
qed

lemma int_Seconds_elapsed_mono:
  assumes "u \<le> t" and "t \<le> t'"
  shows "sint (int_Seconds (time_Sub t u)) \<le> sint (int_Seconds (time_Sub t' u))"
proof -
  have u': "u \<le> t'" using assms by simp
  note a = time_Sub_elapsed [OF assms(1)] and b = time_Sub_elapsed [OF u']
  have "time_Sub t u \<le> time_Sub t' u" using assms(2) by (simp add: a(1) b(1))
  with a(2) show ?thesis using b(3) by (rule int_Seconds_mono)
qed

lemma uint_spec_served_ttl:
  assumes "0 \<le> d"
  shows "uint (spec_served_ttl ttl d) = (if uint ttl - d \<le> 0 then 3 else uint ttl - d)"
proof (cases "uint ttl - d \<le> 0")
  case True
  then show ?thesis by (simp add: spec_served_ttl_def)
next
  case False
  have "uint ttl < 2 ^ 32" using uint_bounded [of ttl] by simp
  then have "uint ttl - d < 2 ^ 32" using assms by linarith
  moreover have "0 \<le> uint ttl - d" using False by linarith
  ultimately have m: "(uint ttl - d) mod 2 ^ 32 = uint ttl - d" by (intro mod_pos_pos_trivial)
  have "uint (word_of_int (uint ttl - d) :: 32 word) = (uint ttl - d) mod 2 ^ 32"
    by (simp only: uint_word_of_int) simp
  then have "uint (word_of_int (uint ttl - d) :: 32 word) = uint ttl - d" by (simp only: m)
  then show ?thesis using False by (simp only: spec_served_ttl_def if_False)
qed

lemma cache_Get_Some:
  "cache_Get k c = (Some v, c') \<Longrightarrow> map_of (items c) k = Some v"
  by (auto simp add: cache_Get_def split: option.splits)

lemma served_at_eq:
  assumes "putin c \<le> now"
  shows "served_at c now =
           spec_rewrite_ttls (sint (int_Seconds (time_Sub now (putin c)))) (reply c)"
  using int_Seconds_elapsed(1) [OF assms]
  by (simp add: served_at_def subTTL_eq spec_rewrite_ttls_def)

lemma spec_serve_rr_ge1:
  assumes "0 \<le> d"
  shows "1 \<le> uint (Ttl (Header (spec_serve_rr d rr)))"
  by (cases rr) (simp_all add: spec_serve_rr_def uint_spec_served_ttl [OF assms])

lemma sections_spec_rewrite_ttls:
  "sections (spec_rewrite_ttls d m) = map (spec_serve_rr d) (sections m)"
  by (simp add: sections_def spec_rewrite_ttls_def)

lemma LookupCache_Some_served_at:
  assumes "LookupCache ext req net now s = Inr ((Some r, hit), s')"
  shows "\<exists>key c. genCacheKey ext req net = Inr key \<and>
           map_of (items (cache s)) key = Some (VCacheEntry c) \<and> r = served_at c now \<and> hit"
  using assms
  by (auto simp add: LookupCache_def served_at_def Let_def
        split: sum.splits prod.splits option.splits dyn.splits if_splits
        dest: cache_Get_Some)

lemma example_key: "genCacheKey example_ext example_query ''udp'' = Inr ''example.com._A_1_udp''"
  by (simp add: genCacheKey_def Question0_def example_ext_def example_query_def new_Msg_def)

lemma example_served_ttls:
  "map (\<lambda>rr. Ttl (Header rr)) (sections (served_at example_entry 58500000000)) = [2]"
  "map (\<lambda>rr. Ttl (Header rr)) (sections (served_at example_entry 59000000000)) = [1]"
  "map (\<lambda>rr. Ttl (Header rr)) (sections (served_at example_entry 65000000000)) = [3]"
  by (simp_all add: served_at_def example_entry_def example_reply_def new_Msg_def
      time_Sub_def int_Seconds_young(2) subTTL_def subTTL_rr_def Let_def sections_def word_sle_eq)

text \<open>
  C5 (as amended). On a cache hit (the key of the request maps to an entry, inserted at
  or before \<open>now\<close> on the monotonic clock and less than \<open>2^63\<close> nanoseconds ago),
  \<open>LookupCache\<close> returns the stored reply with \<open>int(elapsed.Seconds())\<close> subtracted from
  the TTL of every record of the answer, authority and additional sections, a TTL that
  would be zero or negative being set to 3; the refresh task for the same request and
  transport is started exactly when some record was clamped; and the stored entry itself
  is unchanged. The seconds subtracted are the floor of the elapsed seconds for an entry
  younger than \<open>2^24\<close> seconds, and that floor or one more for an older one.
\<close>

theorem LookupCache_hit:
  assumes "genCacheKey ext req net = Inr key"
    and "map_of (items (cache s)) key = Some (VCacheEntry c)"
    and "putin c \<le> now" and "now - putin c < 2 ^ 63"
  shows "LookupCache ext req net now s =
           Inr ((Some (spec_rewrite_ttls (sint (int_Seconds (now - putin c))) (reply c)), True),
                (let s1 = emit [EvCacheGet key] (s\<lparr>cache := snd (cache_Get key (cache s))\<rparr>)
                 in if \<exists>rr \<in> set (sections (reply c)).
                         spec_expired (sint (int_Seconds (now - putin c))) rr
                    then emit [EvGoLookupNet req net] s1 else s1))
         \<and> map_of (items (snd (cache_Get key (cache s)))) key = Some (VCacheEntry c)
         \<and> spec_elapsed_seconds now (putin c) \<le> sint (int_Seconds (now - putin c))
         \<and> sint (int_Seconds (now - putin c)) \<le> spec_elapsed_seconds now (putin c) + 1
         \<and> (now - putin c < 2 ^ 24 * 1000000000 \<longrightarrow>
              sint (int_Seconds (now - putin c)) = spec_elapsed_seconds now (putin c))"
proof -
  have d0: "0 \<le> now - putin c" using assms(3) by simp
  have m: "time_Sub now (putin c) = now - putin c"
    using time_Sub_elapsed(1) [OF assms(3)] assms(4) by simp
  obtain c' where g: "cache_Get key (cache s) = (Some (VCacheEntry c), c')"
    using assms(2) by (simp add: cache_Get_def)
  have sub: "subTTL (reply c) (int_Seconds (now - putin c)) =
               (spec_rewrite_ttls (sint (int_Seconds (now - putin c))) (reply c),
                \<exists>rr \<in> set (sections (reply c)). spec_expired (sint (int_Seconds (now - putin c))) rr)"
    using subTTL_eq [OF int_Seconds_elapsed(1) [OF assms(3)], of "reply c"]
    by (simp only: m spec_rewrite_ttls_def)
  have 1: "LookupCache ext req net now s =
           Inr ((Some (spec_rewrite_ttls (sint (int_Seconds (now - putin c))) (reply c)), True),
                (let s1 = emit [EvCacheGet key] (s\<lparr>cache := snd (cache_Get key (cache s))\<rparr>)
                 in if \<exists>rr \<in> set (sections (reply c)).
                         spec_expired (sint (int_Seconds (now - putin c))) rr
                    then emit [EvGoLookupNet req net] s1 else s1))"
    by (simp add: LookupCache_def assms(1) g m sub Let_def)
  have 2: "map_of (items (snd (cache_Get key (cache s)))) key = Some (VCacheEntry c)"
    using assms(2) by (simp add: cache_Get_def)
  have 3: "spec_elapsed_seconds now (putin c) \<le> sint (int_Seconds (now - putin c))"
    unfolding spec_elapsed_seconds_def by (rule int_Seconds_sint(2) [OF d0 assms(4)])
  have 4: "sint (int_Seconds (now - putin c)) \<le> spec_elapsed_seconds now (putin c) + 1"
    unfolding spec_elapsed_seconds_def by (rule int_Seconds_sint(3) [OF d0 assms(4)])
  have 5: "now - putin c < 2 ^ 24 * 1000000000 \<longrightarrow>
              sint (int_Seconds (now - putin c)) = spec_elapsed_seconds now (putin c)"
    unfolding spec_elapsed_seconds_def using int_Seconds_young(1) [OF d0] by blast
  from 1 2 3 4 5 show ?thesis by blast
qed

theorem LookupCache_hit_witness:
  "LookupCache example_ext example_query ''udp'' 65000000000 cached_server =
     Inr ((Some (spec_rewrite_ttls 65 example_reply), True),
          emit [EvGoLookupNet example_query ''udp'']
            (emit [EvCacheGet ''example.com._A_1_udp'']
               (cached_server\<lparr>cache :=
                  snd (cache_Get ''example.com._A_1_udp'' (cache cached_server))\<rparr>))) \<and>
   map (\<lambda>rr. Ttl (Header rr)) (sections (spec_rewrite_ttls 65 example_reply)) = [3] \<and>
   map_of (items (snd (cache_Get ''example.com._A_1_udp'' (cache cached_server))))
     ''example.com._A_1_udp'' = Some (VCacheEntry example_entry) \<and>
   sint (int_Seconds (65000000000 - putin example_entry)) = 65 \<and>
   spec_elapsed_seconds 65000000000 (putin example_entry) = 65"
  using LookupCache_hit [of example_ext example_query "''udp''" "''example.com._A_1_udp''"
      cached_server example_entry 65000000000]
  by (simp add: example_key cached_server_def example_entry_def example_reply_def new_Msg_def
      spec_elapsed_seconds_def spec_expired_def sections_def spec_rewrite_ttls_def
      spec_serve_rr_def spec_served_ttl_def int_Seconds_young(1))

text \<open>
  C5 as stated fails: the seconds subtracted are not always the floor of the elapsed time.
  An entry read 16777216.999999999 seconds after its insertion has \<open>Seconds()\<close> rounded to
  16777217, so a record stored with TTL 16777217 is served with TTL 3 and a refresh is
  started, where the floor would give TTL 1 and no refresh.
\<close>

lemma y_eval: "fl64 (999999999 / 1000000000) = 9007199245733793 / 9007199254740992"
proof -
  have "fl64 (999999999 / 1000000000) =
      of_int (round_half_even (999999999 / 1000000000 / power_int 2 (- 1 - 52))) * power_int 2 (- 1 - 52)"
    by (rule fl64_eval) (simp_all add: power_int_minus)
  also have "999999999 / 1000000000 / power_int 2 (- 1 - 52) =
      (of_int 17592186026823813955584 / of_int 1953125 :: rat)"
    by (simp add: power_int_minus)
  also have "round_half_even (of_int 17592186026823813955584 / of_int 1953125) = 9007199245733793"
    by (subst rhe_frac) simp_all
  finally show ?thesis by (simp add: power_int_minus)
qed

lemma x_eval: "fl64 (16777216 + 9007199245733793 / 9007199254740992) = 16777217"
proof -
  have "fl64 (16777216 + 9007199245733793 / 9007199254740992) =
      of_int (round_half_even ((16777216 + 9007199245733793 / 9007199254740992) / power_int 2 (24 - 52))) * power_int 2 (24 - 52)"
    by (rule fl64_eval) (simp_all add: power_int_minus)
  also have "(16777216 + 9007199245733793 / 9007199254740992) / power_int 2 (24 - 52) =
      (of_int 151115736459027892572065 / of_int 33554432 :: rat)"
    by (simp add: power_int_minus)
  also have "round_half_even (of_int 151115736459027892572065 / of_int 33554432) = 4503599895805952"
    by (subst rhe_frac) simp_all
  finally show ?thesis by (simp add: power_int_minus)
qed

lemma Duration_Seconds_old: "Duration_Seconds 16777216999999999 = 16777217"
proof -
  have "Duration_Seconds 16777216999999999 =
          fl64 (of_int (16777216999999999 div 1000000000)
                + fl64 (of_int (16777216999999999 mod 1000000000) / 1000000000))"
    by (rule Duration_Seconds_nonneg) simp_all
  also have "\<dots> = fl64 (16777216 + fl64 (999999999 / 1000000000))" by simp
  also have "\<dots> = 16777217" by (simp only: y_eval x_eval)
  finally show ?thesis .
qed

lemma int_Seconds_old: "int_Seconds 16777216999999999 = 16777217"
  by (simp add: int_Seconds_def go_int_of_float_def Duration_Seconds_old)

theorem LookupCache_floor_counterexample:
  "putin old_entry \<le> 16777216999999999 \<and>
   spec_elapsed_seconds 16777216999999999 (putin old_entry) = 16777216 \<and>
   map (\<lambda>rr. Ttl (Header rr)) (sections (spec_rewrite_ttls 16777216 (reply old_entry))) = [1] \<and>
   list_ex (spec_expired 16777216) (sections (reply old_entry)) = False \<and>
   map_sum id (\<lambda>x. (map_option (\<lambda>m. map (\<lambda>rr. Ttl (Header rr)) (sections m)) (fst (fst x)),
                      trace (snd x)))
     (LookupCache example_ext example_query ''udp'' 16777216999999999 old_cached_server)
   = Inr (Some [3], [EvCacheGet ''example.com._A_1_udp'', EvGoLookupNet example_query ''udp''])"
  by (simp add: LookupCache_def example_key cache_Get_def old_cached_server_def old_entry_def
      old_reply_def new_Msg_def time_Sub_def int_Seconds_old subTTL_def subTTL_rr_def
      Let_def sections_def emit_def word_sle_eq spec_elapsed_seconds_def spec_rewrite_ttls_def
      spec_serve_rr_def spec_served_ttl_def spec_expired_def)

text \<open>
  C3 (as amended). Every record of a reply served from the cache has a TTL of at least 1
  second, given that the entries were inserted at or before the instant of the lookup.
\<close>

theorem LookupCache_ttl_positive:
  assumes "LookupCache ext req net now s = Inr ((Some r, hit), s')"
    and "\<forall>k c. map_of (items (cache s)) k = Some (VCacheEntry c) \<longrightarrow> putin c \<le> now"
  shows "\<forall>rr \<in> set (sections r). 1 \<le> uint (Ttl (Header rr))"
proof -
  from LookupCache_Some_served_at [OF assms(1)] obtain key c where
    c: "map_of (items (cache s)) key = Some (VCacheEntry c)" and r: "r = served_at c now"
    by blast
  from c assms(2) have le: "putin c \<le> now" by blast
  have d0: "0 \<le> sint (int_Seconds (time_Sub now (putin c)))"
    by (rule int_Seconds_elapsed(2) [OF le])
  show ?thesis
    unfolding r served_at_eq [OF le] sections_spec_rewrite_ttls
    using spec_serve_rr_ge1 [OF d0] by simp
qed

theorem LookupCache_ttl_positive_witness:
  "(\<exists>s'. LookupCache example_ext example_query ''udp'' 58500000000 cached_server
           = Inr ((Some (served_at example_entry 58500000000), True), s')) \<and>
   list_all (\<lambda>rr. 1 \<le> uint (Ttl (Header rr))) (sections (served_at example_entry 58500000000))"
proof -
  have e: "\<exists>s'. LookupCache example_ext example_query ''udp'' 58500000000 cached_server
           = Inr ((Some (served_at example_entry 58500000000), True), s')"
    by (simp add: LookupCache_def example_key cache_Get_def cached_server_def served_at_def
        Let_def split: prod.splits)
  have h: "\<forall>k c. map_of (items (cache cached_server)) k = Some (VCacheEntry c)
             \<longrightarrow> putin c \<le> 58500000000"
    by (simp add: cached_server_def example_entry_def)
  from e obtain s' where "LookupCache example_ext example_query ''udp'' 58500000000 cached_server
           = Inr ((Some (served_at example_entry 58500000000), True), s')" ..
  from LookupCache_ttl_positive [OF this h] e show ?thesis by (simp add: list_all_iff)
qed

text \<open>
  C3 as stated fails: a record stored with TTL 60 is served with TTL 2 after 58.5 seconds;
  the clamp to 3 applies only to a TTL that would be zero or negative.
\<close>

theorem LookupCache_ttl_below_3_counterexample:
  "map_sum id (\<lambda>x. (map_option (\<lambda>m. map (\<lambda>rr. Ttl (Header rr)) (sections m)) (fst (fst x)),
                      snd (fst x)))
     (LookupCache example_ext example_query ''udp'' 58500000000 cached_server)
   = Inr (Some [2], True)"
  by (simp add: LookupCache_def example_key cache_Get_def cached_server_def example_entry_def
      example_reply_def new_Msg_def time_Sub_def int_Seconds_young(2) subTTL_def subTTL_rr_def
      Let_def sections_def emit_def word_sle_eq)

lemma spec_served_ttl_mono:
  assumes "0 \<le> d1" and "d1 \<le> d2"
  shows "uint (spec_served_ttl t d2) \<le> uint (spec_served_ttl t d1) \<or> spec_served_ttl t d2 = 3"
proof (cases "uint t - d2 \<le> 0")
  case True
  then show ?thesis by (simp only: spec_served_ttl_def if_True simp_thms)
next
  case False
  have d2: "0 \<le> d2" using assms by linarith
  have "uint (spec_served_ttl t d2) \<le> uint (spec_served_ttl t d1)"
    unfolding uint_spec_served_ttl [OF assms(1)] uint_spec_served_ttl [OF d2]
    using False assms(2) by simp
  then show ?thesis by (rule disjI1)
qed

text \<open>
  C7. For an entry and two instants \<open>now1 < now2\<close> at or after its insertion, every record
  of the reply served at \<open>now2\<close> has a TTL not above the TTL of the same record served at
  \<open>now1\<close>, or a TTL equal to the clamp value 3.
\<close>

theorem served_ttl_monotone:
  assumes "putin c \<le> now1" and "now1 < now2"
  shows "list_all2 ttl_not_above (Answer (served_at c now1)) (Answer (served_at c now2)) \<and>
         list_all2 ttl_not_above (Ns (served_at c now1)) (Ns (served_at c now2)) \<and>
         list_all2 ttl_not_above (Extra (served_at c now1)) (Extra (served_at c now2))"
proof -
  let ?d1 = "sint (int_Seconds (time_Sub now1 (putin c)))"
  let ?d2 = "sint (int_Seconds (time_Sub now2 (putin c)))"
  have le2: "putin c \<le> now2" using assms by simp
  have d1: "0 \<le> ?d1" by (rule int_Seconds_elapsed(2) [OF assms(1)])
  have "now1 \<le> now2" using assms(2) by simp
  with assms(1) have d12: "?d1 \<le> ?d2" by (rule int_Seconds_elapsed_mono)
  have d2: "0 \<le> ?d2" using d1 d12 by linarith
  have rr: "ttl_not_above (spec_serve_rr ?d1 rr) (spec_serve_rr ?d2 rr)" for rr
    using spec_served_ttl_mono [OF d1 d12]
    by (cases rr) (simp_all add: ttl_not_above_def spec_serve_rr_def)
  have all: "list_all2 ttl_not_above (map (spec_serve_rr ?d1) rrs) (map (spec_serve_rr ?d2) rrs)"
    for rrs
    unfolding list_all2_map1 list_all2_map2 list_all2_same using rr by blast
  show ?thesis
    unfolding served_at_eq [OF assms(1)] served_at_eq [OF le2]
    using all [of "Answer (reply c)"] all [of "Ns (reply c)"] all [of "Extra (reply c)"]
    by (simp add: spec_rewrite_ttls_def)
qed

theorem served_ttl_monotone_witness:
  "list_all2 ttl_not_above (Answer (served_at example_entry 59000000000))
      (Answer (served_at example_entry 65000000000)) \<and>
   map (\<lambda>rr. Ttl (Header rr)) (sections (served_at example_entry 59000000000)) = [1] \<and>
   map (\<lambda>rr. Ttl (Header rr)) (sections (served_at example_entry 65000000000)) = [3]"
  using served_ttl_monotone [of example_entry 59000000000 65000000000]
  by (simp add: example_served_ttls) (simp add: example_entry_def)

section \<open>The cache fingerprint\<close>

text \<open>
  C4 (as amended). Two request messages that are identical except for their transaction
  ID have, for the same transport, the same cache fingerprint (and \<open>genCacheKey\<close> panics on
  both or on neither).
\<close>

theorem genCacheKey_ignores_Id:
  "genCacheKey ext (r\<lparr>Id := i\<rparr>) net = genCacheKey ext r net"
  by (cases "Question r") (simp_all add: genCacheKey_def Question0_def)

text \<open>
  C4 as stated fails: \<open>genCacheKey\<close> uses the query name as it is, so two requests that
  differ in the transaction ID and in the letter case of the name only get two keys.
\<close>

theorem genCacheKey_case_counterexample:
  "map spec_ascii_lower (Name (hd (Question example_query_mixed_case)))
     = map spec_ascii_lower (Name (hd (Question example_query))) \<and>
   example_query_mixed_case =
     example_query\<lparr>Id := 22136,
       Question := [(hd (Question example_query))\<lparr>Name := ''Example.COM.''\<rparr>]\<rparr> \<and>
   genCacheKey example_ext example_query_mixed_case ''udp''
     \<noteq> genCacheKey example_ext example_query ''udp''"
  by (simp add: example_query_mixed_case_def example_query_def new_Msg_def spec_ascii_lower_def
      genCacheKey_def Question0_def example_ext_def Let_def)

section \<open>The dispatcher on a request without question\<close>

text \<open>
  C9. For a message whose question section is empty, \<open>handle\<close> hands exactly one message to
  the response writer, carrying the response code \<open>RcodeBadName\<close> and the request's id, and
  returns: the trace gains that one event (no probe of the hosts stub or of the cache, no
  exchange with an upstream), the two stores are untouched, and the result depends neither
  on the upstreams nor on the clock.
\<close>

theorem handle_empty_question:
  assumes "Question req = []"
  shows "handle ext req net fast clean tget tset s =
           Inr (emit [EvWriteMsg (SetRcode new_Msg req RcodeBadName)] s) \<and>
         Rcode (SetRcode new_Msg req RcodeBadName) = RcodeBadName \<and>
         Id (SetRcode new_Msg req RcodeBadName) = Id req"
  using assms by (simp add: handle_def SetRcode_def SetReply_def Let_def)

theorem handle_empty_question_witness:
  "handle example_ext questionless_query ''udp'' Deadline Deadline 0 0 cached_server =
     Inr (cached_server\<lparr>trace := [EvWriteMsg (new_Msg\<lparr>Id := 7, Response := True, Rcode := 20\<rparr>)]\<rparr>)"
  using handle_empty_question [of questionless_query example_ext "''udp''" Deadline Deadline 0 0
      cached_server]
  by (simp add: questionless_query_def new_Msg_def SetRcode_def SetReply_def Let_def emit_def
      cached_server_def RcodeBadName_def OpcodeQuery_def RcodeSuccess_def)

section \<open>The two stores along \<open>LookupNet\<close>\<close>

lemma list_all_cache_Set:
  "list_all P (items c) \<Longrightarrow> P (k, v) \<Longrightarrow> list_all P (items (cache_Set k v c))"
  by (auto simp add: cache_Set_def list_all_iff dest!: in_set_takeD)

lemma list_all_cache_Get:
  "list_all P (items c) \<Longrightarrow> list_all P (items (snd (cache_Get k c)))"
  by (auto simp add: cache_Get_def list_all_iff split: option.splits dest: map_of_SomeD)

lemma cache_Get_hint:
  "list_all P (items c) \<Longrightarrow> cache_Get k c = (Some v, c') \<Longrightarrow> P (k, v)"
  by (auto simp add: cache_Get_def list_all_iff split: option.splits dest: map_of_SomeD)

lemma list_all_cache_Get_pair:
  "list_all P (items c) \<Longrightarrow> cache_Get k c = (v, c') \<Longrightarrow> list_all P (items c')"
  using list_all_cache_Get [of P c k] by simp

lemma maybePolluted_frame:
  assumes "maybePolluted ext res s = Inr (b, s')"
  shows "cache s' = cache s \<and> config s' = config s \<and> trace s' = trace s"
  using assms
  by (auto simp add: maybePolluted_def Let_def
        split: if_splits sum.splits prod.splits option.splits dyn.splits)

lemma maybePolluted_chinaDom_all:
  assumes "maybePolluted ext res s = Inr (b, s')" and "list_all P (items (chinaDom s))"
    and "\<And>k v. P (k, VBool v)"
  shows "list_all P (items (chinaDom s'))"
  using assms
  by (auto simp add: maybePolluted_def Let_def list_all_cache_Set
        split: if_splits sum.splits prod.splits option.splits dyn.splits)
     (metis list_all_cache_Get_pair)+

lemma maybePolluted_hints:
  assumes "maybePolluted ext res s = Inr (b, s')" and "hints_are_bools s"
  shows "hints_are_bools s'"
  unfolding hints_are_bools_def
  by (rule maybePolluted_chinaDom_all [OF assms(1) assms(2) [unfolded hints_are_bools_def]]) simp

lemma maybePolluted_no_type_panic:
  assumes "hints_are_bools s"
  shows "maybePolluted ext res s \<noteq> Inl TypeAssertionFailed"
proof
  assume p: "maybePolluted ext res s = Inl TypeAssertionFailed"
  have "\<not> (cache_Get k (chinaDom s) = (Some (VCacheEntry e), c'))" for k e c'
    using cache_Get_hint [OF assms [unfolded hints_are_bools_def], of k "VCacheEntry e" c']
    by auto
  with p show False
    by (auto simp add: maybePolluted_def Let_def Question0_def
        split: if_splits sum.splits prod.splits option.splits dyn.splits list.splits)
qed

lemma maybePolluted_trusted_has_question:
  assumes "maybePolluted ext res s = Inr (False, s')"
  shows "Question res \<noteq> []"
  using assms
  by (auto simp add: maybePolluted_def Let_def Question0_def
        split: if_splits sum.splits prod.splits option.splits dyn.splits list.splits)

lemma chan_recv_clean:
  assumes "Question req \<noteq> []"
  shows "chan_recv ext req True clean s =
           Inr (case clean of Deadline \<Rightarrow> None | Replied res err \<Rightarrow> res, s)"
  using assms by (auto simp add: chan_recv_def Q_def split: outcome.splits option.splits)

lemma chan_recv_fast_Some:
  "(chan_recv ext req False fast s0 = Inr (Some res, s1)) =
   (fast = Replied (Some res) False \<and> Rcode res = RcodeSuccess \<and>
    maybePolluted ext res s0 = Inr (False, s1))"
  by (auto simp add: chan_recv_def Q_def
        split: outcome.splits option.splits sum.splits prod.splits if_splits)

lemma emit_fields [simp]:
  "cache (emit evs s) = cache s" "chinaDom (emit evs s) = chinaDom s"
  "config (emit evs s) = config s" "trace (emit evs s) = trace s @ evs"
  by (simp_all add: emit_def)

lemma Rcode_SetRcode [simp]: "Rcode (SetRcode m request rcode) = rcode"
  by (simp add: SetRcode_def)

lemma hints_are_bools_emit [simp]: "hints_are_bools (emit evs s) = hints_are_bools s"
  by (simp add: hints_are_bools_def)

lemma entries_are_NOERROR_emit [simp]: "entries_are_NOERROR (emit evs s) = entries_are_NOERROR s"
  by (simp add: entries_are_NOERROR_def)

lemma Q_frame:
  assumes "Q ext req useClean res err s = Inr (m, s')"
  shows "cache s' = cache s \<and> config s' = config s \<and> trace s' = trace s \<and>
         (hints_are_bools s \<longrightarrow> hints_are_bools s')"
  using assms
  by (auto simp add: Q_def split: if_splits option.splits sum.splits prod.splits
        dest: maybePolluted_frame maybePolluted_hints)

lemma chan_recv_frame:
  assumes "chan_recv ext req useClean oc s = Inr (m, s')"
  shows "cache s' = cache s \<and> config s' = config s \<and> trace s' = trace s \<and>
         (hints_are_bools s \<longrightarrow> hints_are_bools s')"
  using assms by (auto simp add: chan_recv_def split: outcome.splits dest: Q_frame)

lemma setCache_frame:
  assumes "setCache ext res net now s = Inr s'"
  shows "chinaDom s' = chinaDom s \<and> config s' = config s \<and> trace s' = trace s \<and>
         (\<exists>key. genCacheKey ext res net = Inr key \<and>
            cache s' = cache_Set key (VCacheEntry \<lparr>putin = now, reply = res\<rparr>) (cache s))"
  using assms by (auto simp add: setCache_def split: sum.splits)

lemma LookupNet_frame:
  assumes "LookupNet ext req net fast clean now s = Inr ((res, label), s')"
  shows "(\<exists>r. res = Some r) \<and> config s' = config s \<and>
         (hints_are_bools s \<longrightarrow> hints_are_bools s') \<and>
         (cache s' = cache s \<or>
          (\<exists>key r. res = Some r \<and> Rcode r = RcodeSuccess \<and> genCacheKey ext r net = Inr key \<and>
             cache s' = cache_Set key (VCacheEntry \<lparr>putin = now, reply = r\<rparr>) (cache s)))"
proof -
  let ?s0 = "emit [EvExchange (CleanDNS (config s)) net, EvExchange (FastDNS (config s)) net] s"
  from assms obtain cleanRes s1 where c: "chan_recv ext req True clean ?s0 = Inr (cleanRes, s1)"
    by (auto simp add: LookupNet_def Let_def split: sum.splits)
  from assms c obtain fastRes s2 where f: "chan_recv ext req False fast s1 = Inr (fastRes, s2)"
    by (auto simp add: LookupNet_def Let_def split: sum.splits)
  note fc = chan_recv_frame [OF c]
  note ff = chan_recv_frame [OF f]
  show ?thesis
  proof (cases fastRes)
    case (Some r)
    with f have "Rcode r = RcodeSuccess" by (simp add: chan_recv_fast_Some)
    moreover from assms c f Some obtain s3 where "setCache ext r net now s2 = Inr s3"
      and "res = Some r" and "s' = s3"
      by (auto simp add: LookupNet_def Let_def split: sum.splits)
    ultimately show ?thesis
      using fc ff by (auto simp add: hints_are_bools_def dest!: setCache_frame)
  next
    case None
    let ?r = "case cleanRes of None \<Rightarrow> SetRcode new_Msg req RcodeServerFailure | Some r \<Rightarrow> r"
    show ?thesis
    proof (cases "Rcode ?r = RcodeSuccess")
      case True
      with assms c f None obtain s3 where "setCache ext ?r net now s2 = Inr s3"
        and "res = Some ?r" and "s' = s3"
        by (auto simp add: LookupNet_def Let_def split: sum.splits)
      then show ?thesis
        using fc ff True by (auto simp add: hints_are_bools_def dest!: setCache_frame)
    next
      case False
      with assms c f None have "res = Some ?r" and "s' = s2"
        by (auto simp add: LookupNet_def Let_def split: sum.splits)
      then show ?thesis using fc ff by auto
    qed
  qed
qed

section \<open>The fast path of \<open>LookupNet\<close>\<close>

text \<open>
  C2. The value \<open>LookupNet\<close> receives from the fast channel is the fast upstream's reply
  exactly when that reply arrived before the deadline without transport error, has
  response code \<open>NOERROR\<close>, and \<open>maybePolluted\<close> returns false for it. For a request with
  a question: whenever this is so, \<open>LookupNet\<close> stores the reply in the answer cache and
  returns it with the fast upstream's address, whatever the clean channel delivers; and
  whenever the fast channel delivers \<open>nil\<close> instead, \<open>LookupNet\<close> serves what the clean
  channel delivers (or the synthesized \<open>SERVFAIL\<close>) with the clean upstream's address,
  caching it only with response code \<open>NOERROR\<close>, so that a discarded fast reply is not
  served; a panic of the fast goroutine is a panic of \<open>LookupNet\<close>.
\<close>

theorem LookupNet_fast_selected:
  assumes "Question req \<noteq> []"
  shows "(chan_recv ext req False fast s0 = Inr (Some res, s1)) =
           (fast = Replied (Some res) False \<and> Rcode res = RcodeSuccess \<and>
            maybePolluted ext res s0 = Inr (False, s1)) \<and>
         (chan_recv ext req False fast
            (emit [EvExchange (CleanDNS (config s)) net, EvExchange (FastDNS (config s)) net] s)
            = Inr (Some res, s1) \<longrightarrow>
          (\<exists>key. genCacheKey ext res net = Inr key \<and>
             LookupNet ext req net fast clean now s =
               Inr ((Some res, FastDNS (config s)),
                    s1\<lparr>cache := cache_Set key (VCacheEntry \<lparr>putin = now, reply = res\<rparr>)
                                 (cache s1)\<rparr>))) \<and>
         (chan_recv ext req False fast
            (emit [EvExchange (CleanDNS (config s)) net, EvExchange (FastDNS (config s)) net] s)
            = Inr (None, s1) \<longrightarrow>
          LookupNet ext req net fast clean now s =
            (let served = (case clean of
                             Deadline \<Rightarrow> SetRcode new_Msg req RcodeServerFailure
                           | Replied None err \<Rightarrow> SetRcode new_Msg req RcodeServerFailure
                           | Replied (Some r) err \<Rightarrow> r)
             in if Rcode served = RcodeSuccess
                then (case setCache ext served net now s1 of
                        Inl p \<Rightarrow> Inl p
                      | Inr s3 \<Rightarrow> Inr ((Some served, CleanDNS (config s)), s3))
                else Inr ((Some served, CleanDNS (config s)), s1))) \<and>
         (chan_recv ext req False fast
            (emit [EvExchange (CleanDNS (config s)) net, EvExchange (FastDNS (config s)) net] s)
            = Inl p \<longrightarrow>
          LookupNet ext req net fast clean now s = Inl p)"
proof (intro conjI impI)
  show "(chan_recv ext req False fast s0 = Inr (Some res, s1)) =
           (fast = Replied (Some res) False \<and> Rcode res = RcodeSuccess \<and>
            maybePolluted ext res s0 = Inr (False, s1))"
    by (rule chan_recv_fast_Some)
next
  let ?s0 = "emit [EvExchange (CleanDNS (config s)) net, EvExchange (FastDNS (config s)) net] s"
  assume f: "chan_recv ext req False fast ?s0 = Inr (Some res, s1)"
  then have "maybePolluted ext res ?s0 = Inr (False, s1)" by (simp add: chan_recv_fast_Some)
  then have "Question res \<noteq> []" by (rule maybePolluted_trusted_has_question)
  then obtain q qs where q: "Question res = q # qs" by (cases "Question res") auto
  then obtain key where k: "genCacheKey ext res net = Inr key"
    by (simp add: genCacheKey_def Question0_def Let_def)
  have "LookupNet ext req net fast clean now s =
          Inr ((Some res, FastDNS (config s)),
               s1\<lparr>cache := cache_Set key (VCacheEntry \<lparr>putin = now, reply = res\<rparr>) (cache s1)\<rparr>)"
    by (simp add: LookupNet_def Let_def chan_recv_clean [OF assms] f setCache_def k)
  with k show "\<exists>key. genCacheKey ext res net = Inr key \<and>
             LookupNet ext req net fast clean now s =
               Inr ((Some res, FastDNS (config s)),
                    s1\<lparr>cache := cache_Set key (VCacheEntry \<lparr>putin = now, reply = res\<rparr>)
                                 (cache s1)\<rparr>)"
    by blast
next
  let ?s0 = "emit [EvExchange (CleanDNS (config s)) net, EvExchange (FastDNS (config s)) net] s"
  assume f: "chan_recv ext req False fast ?s0 = Inr (None, s1)"
  show "LookupNet ext req net fast clean now s =
            (let served = (case clean of
                             Deadline \<Rightarrow> SetRcode new_Msg req RcodeServerFailure
                           | Replied None err \<Rightarrow> SetRcode new_Msg req RcodeServerFailure
                           | Replied (Some r) err \<Rightarrow> r)
             in if Rcode served = RcodeSuccess
                then (case setCache ext served net now s1 of
                        Inl p \<Rightarrow> Inl p
                      | Inr s3 \<Rightarrow> Inr ((Some served, CleanDNS (config s)), s3))
                else Inr ((Some served, CleanDNS (config s)), s1))"
    by (simp add: LookupNet_def Let_def chan_recv_clean [OF assms] f
        split: outcome.splits option.splits)
next
  let ?s0 = "emit [EvExchange (CleanDNS (config s)) net, EvExchange (FastDNS (config s)) net] s"
  assume f: "chan_recv ext req False fast ?s0 = Inl p"
  show "LookupNet ext req net fast clean now s = Inl p"
    by (simp add: LookupNet_def Let_def chan_recv_clean [OF assms] f)
qed

theorem LookupNet_fast_selected_witness:
  "Question baidu_query \<noteq> [] \<and>
   chan_recv example_ext baidu_query False (Replied (Some baidu_fast_reply) False)
     (emit [EvExchange (CleanDNS (config fresh_server)) ''udp'',
            EvExchange (FastDNS (config fresh_server)) ''udp''] fresh_server)
     = Inr (Some baidu_fast_reply, baidu_classified) \<and>
   LookupNet example_ext baidu_query ''udp'' (Replied (Some baidu_fast_reply) False)
     (Replied (Some baidu_clean_reply) False) 1000 fresh_server =
     Inr ((Some baidu_fast_reply, ''114.114.114.114:53''),
          baidu_classified\<lparr>cache := cache_Set ''baidu.com._A_1_udp''
             (VCacheEntry \<lparr>putin = 1000, reply = baidu_fast_reply\<rparr>) (cache baidu_classified)\<rparr>) \<and>
   Question example_query \<noteq> [] \<and>
   chan_recv example_ext example_query False (Replied (Some example_fast_reply) False)
     (emit [EvExchange (CleanDNS (config fresh_server)) ''udp'',
            EvExchange (FastDNS (config fresh_server)) ''udp''] fresh_server)
     = Inr (None, example_classified) \<and>
   LookupNet example_ext example_query ''udp'' (Replied (Some example_fast_reply) False)
     (Replied (Some example_reply) False) 2000 fresh_server =
     Inr ((Some example_reply, ''8.8.8.8:53''),
          example_classified\<lparr>cache := cache_Set ''example.com._A_1_udp''
             (VCacheEntry \<lparr>putin = 2000, reply = example_reply\<rparr>) (cache example_classified)\<rparr>)"
proof -
  have q: "Question baidu_query \<noteq> []" by (simp add: baidu_query_def)
  have f: "chan_recv example_ext baidu_query False (Replied (Some baidu_fast_reply) False)
     (emit [EvExchange (CleanDNS (config fresh_server)) ''udp'',
            EvExchange (FastDNS (config fresh_server)) ''udp''] fresh_server)
     = Inr (Some baidu_fast_reply, baidu_classified)"
    by (simp add: baidu_classified_def eval_defs baidu_query_def baidu_fast_reply_def)
  have k: "genCacheKey example_ext baidu_fast_reply ''udp'' = Inr ''baidu.com._A_1_udp''"
    by (simp add: genCacheKey_def Question0_def example_ext_def baidu_fast_reply_def new_Msg_def)
  from LookupNet_fast_selected [OF q, where ext = example_ext
      and fast = "Replied (Some baidu_fast_reply) False" and res = baidu_fast_reply
      and ?s1.0 = baidu_classified and s = fresh_server and net = "''udp''"
      and clean = "Replied (Some baidu_clean_reply) False" and now = 1000] f k
  have 1: "LookupNet example_ext baidu_query ''udp'' (Replied (Some baidu_fast_reply) False)
     (Replied (Some baidu_clean_reply) False) 1000 fresh_server =
     Inr ((Some baidu_fast_reply, FastDNS (config fresh_server)),
          baidu_classified\<lparr>cache := cache_Set ''baidu.com._A_1_udp''
             (VCacheEntry \<lparr>putin = 1000, reply = baidu_fast_reply\<rparr>) (cache baidu_classified)\<rparr>)"
    by auto
  have q': "Question example_query \<noteq> []" by (simp add: example_query_def)
  have f': "chan_recv example_ext example_query False (Replied (Some example_fast_reply) False)
     (emit [EvExchange (CleanDNS (config fresh_server)) ''udp'',
            EvExchange (FastDNS (config fresh_server)) ''udp''] fresh_server)
     = Inr (None, example_classified)"
    by (simp add: example_classified_def eval_defs example_query_def example_fast_reply_def)
  have k': "setCache example_ext example_reply ''udp'' 2000 example_classified =
      Inr (example_classified\<lparr>cache := cache_Set ''example.com._A_1_udp''
             (VCacheEntry \<lparr>putin = 2000, reply = example_reply\<rparr>) (cache example_classified)\<rparr>)"
    by (simp add: setCache_def genCacheKey_def Question0_def example_ext_def example_reply_def
        new_Msg_def)
  have r': "Rcode example_reply = RcodeSuccess"
    by (simp add: example_reply_def new_Msg_def RcodeSuccess_def)
  from LookupNet_fast_selected [OF q', where ext = example_ext
      and fast = "Replied (Some example_fast_reply) False"
      and ?s1.0 = example_classified and s = fresh_server and net = "''udp''"
      and clean = "Replied (Some example_reply) False" and now = 2000] f'
  have 2: "LookupNet example_ext example_query ''udp'' (Replied (Some example_fast_reply) False)
     (Replied (Some example_reply) False) 2000 fresh_server =
     Inr ((Some example_reply, CleanDNS (config fresh_server)),
          example_classified\<lparr>cache := cache_Set ''example.com._A_1_udp''
             (VCacheEntry \<lparr>putin = 2000, reply = example_reply\<rparr>) (cache example_classified)\<rparr>)"
    by (simp add: k' r')
  from q f 1 q' f' 2 show ?thesis by (simp add: fresh_server_def example_cfg_def)
qed

section \<open>\<open>LookupNet\<close> when both upstreams fail\<close>

text \<open>
  When the fast reply is discarded and the clean channel delivers \<open>nil\<close>, \<open>LookupNet\<close>
  returns a synthesized reply with response code \<open>SERVFAIL\<close> and leaves the answer cache
  as it is. And \<open>LookupNet\<close> returns a reply whenever the request and every upstream reply
  that arrives carry a question (and the hint store holds booleans).
\<close>

lemma LookupNet_total_failure:
  assumes "Question req \<noteq> []"
    and "fast = Deadline \<or> (\<exists>err. fast = Replied None err)"
    and "clean = Deadline \<or> (\<exists>err. clean = Replied None err)"
  shows "LookupNet ext req net fast clean now s =
           Inr ((Some (SetRcode new_Msg req RcodeServerFailure), CleanDNS (config s)),
                emit [EvExchange (CleanDNS (config s)) net, EvExchange (FastDNS (config s)) net] s)"
    and "Rcode (SetRcode new_Msg req RcodeServerFailure) = RcodeServerFailure"
  using assms
  by (auto simp add: LookupNet_def Let_def chan_recv_clean chan_recv_def Q_def SetRcode_def
        RcodeServerFailure_def RcodeSuccess_def)

lemma LookupNet_fast_discarded_clean_sentinel:
  assumes "Question req \<noteq> []"
    and "chan_recv ext req False fast
           (emit [EvExchange (CleanDNS (config s)) net, EvExchange (FastDNS (config s)) net] s)
         = Inr (None, s1)"
    and "clean = Deadline \<or> (\<exists>err. clean = Replied None err)"
  shows "LookupNet ext req net fast clean now s =
           Inr ((Some (SetRcode new_Msg req RcodeServerFailure), CleanDNS (config s)), s1)"
    and "cache s1 = cache s"
  using assms chan_recv_frame [OF assms(2)]
  by (auto simp add: LookupNet_def Let_def chan_recv_clean SetRcode_def
        RcodeServerFailure_def RcodeSuccess_def)

lemma maybePolluted_returns:
  assumes "Question res \<noteq> []" and "hints_are_bools s"
  shows "\<exists>b s'. maybePolluted ext res s = Inr (b, s')"
proof (cases "maybePolluted ext res s")
  case (Inl p)
  with assms(1) have "p = TypeAssertionFailed"
    by (auto simp add: maybePolluted_def Let_def Question0_def
          split: if_splits sum.splits prod.splits option.splits dyn.splits list.splits)
  with Inl maybePolluted_no_type_panic [OF assms(2), of ext res] show ?thesis by simp
next
  case (Inr x)
  then show ?thesis by (cases x) simp
qed

lemma LookupNet_returns:
  assumes "Question req \<noteq> []" and "hints_are_bools s"
    and "\<And>r err. fast = Replied (Some r) err \<Longrightarrow> Question r \<noteq> []"
    and "\<And>r err. clean = Replied (Some r) err \<Longrightarrow> Question r \<noteq> []"
  shows "\<exists>r label s'. LookupNet ext req net fast clean now s = Inr ((Some r, label), s')"
proof -
  let ?s0 = "emit [EvExchange (CleanDNS (config s)) net, EvExchange (FastDNS (config s)) net] s"
  have key: "Question m \<noteq> [] \<Longrightarrow> \<exists>k. genCacheKey ext m net = Inr k" for m
    by (cases "Question m") (simp_all add: genCacheKey_def Question0_def Let_def)
  have h0: "hints_are_bools ?s0" using assms(2) by simp
  have "\<exists>fr s2. chan_recv ext req False fast ?s0 = Inr (fr, s2)"
  proof (cases fast)
    case Deadline
    then show ?thesis by (simp add: chan_recv_def)
  next
    case (Replied res err)
    show ?thesis
    proof (cases res)
      case None
      with Replied assms(1) show ?thesis by (simp add: chan_recv_def Q_def)
    next
      case (Some r)
      with Replied assms(3) have "Question r \<noteq> []" by simp
      from maybePolluted_returns [OF this h0, of ext] obtain b s' where
        "maybePolluted ext r ?s0 = Inr (b, s')" by blast
      with Replied Some assms(1) show ?thesis
        by (simp add: chan_recv_def Q_def)
    qed
  qed
  then obtain fr s2 where f: "chan_recv ext req False fast ?s0 = Inr (fr, s2)" by blast
  show ?thesis
  proof (cases fr)
    case (Some r)
    with f have "maybePolluted ext r ?s0 = Inr (False, s2)" by (simp add: chan_recv_fast_Some)
    from key [OF maybePolluted_trusted_has_question [OF this]] obtain k where
      "genCacheKey ext r net = Inr k" ..
    with Some f show ?thesis
      by (simp add: LookupNet_def Let_def chan_recv_clean [OF assms(1)] setCache_def)
  next
    case None
    show ?thesis
    proof (cases clean)
      case Deadline
      with None f show ?thesis
        by (simp add: LookupNet_def Let_def chan_recv_clean [OF assms(1)]
            RcodeServerFailure_def RcodeSuccess_def)
    next
      case (Replied res err)
      show ?thesis
      proof (cases res)
        case cn: None
        with Replied None f show ?thesis
          by (simp add: LookupNet_def Let_def chan_recv_clean [OF assms(1)]
              RcodeServerFailure_def RcodeSuccess_def)
      next
        case (Some r)
        with Replied assms(4) have "Question r \<noteq> []" by simp
        from key [OF this] obtain k where "genCacheKey ext r net = Inr k" ..
        with Replied Some None f show ?thesis
          by (simp add: LookupNet_def Let_def chan_recv_clean [OF assms(1)] setCache_def)
      qed
    qed
  qed
qed

text \<open>
  C6. \<open>LookupNet\<close> does not always return: a clean-upstream reply with response code
  \<open>NOERROR\<close> and an empty question section reaches \<open>setCache\<close>, where \<open>genCacheKey\<close> reads
  \<open>r.Question[0]\<close> and panics. (A fast-upstream reply with records and no question panics
  in \<open>maybePolluted\<close> in the same way.)
\<close>

theorem LookupNet_questionless_reply_panics:
  "Question example_query \<noteq> [] \<and>
   LookupNet example_ext example_query ''udp'' Deadline (Replied (Some questionless_reply) False) 0
     fresh_server = Inl IndexOutOfRange"
  by (simp add: LookupNet_def Let_def chan_recv_def Q_def setCache_def genCacheKey_def
      Question0_def questionless_reply_def example_query_def new_Msg_def RcodeSuccess_def)

section \<open>What the stores hold in every reachable state\<close>

lemma LookupCache_frame:
  assumes "LookupCache ext req net now s = Inr ((res, hit), s')"
  shows "chinaDom s' = chinaDom s \<and> config s' = config s \<and>
         (\<exists>k. cache s' = snd (cache_Get k (cache s)))"
  using assms
  by (auto simp add: LookupCache_def Let_def
        split: sum.splits prod.splits option.splits dyn.splits if_splits)
     (metis snd_conv)+

lemma entries_are_NOERROR_Set:
  assumes "entries_are_NOERROR s" and "Rcode r = RcodeSuccess"
    and "cache s' = cache_Set key (VCacheEntry \<lparr>putin = now, reply = r\<rparr>) (cache s)"
  shows "entries_are_NOERROR s'"
  using assms by (simp add: entries_are_NOERROR_def list_all_cache_Set)

lemma entries_are_NOERROR_Get:
  assumes "entries_are_NOERROR s" and "cache s' = snd (cache_Get k (cache s))"
  shows "entries_are_NOERROR s'"
  using assms by (simp add: entries_are_NOERROR_def list_all_cache_Get)

lemma entries_are_NOERROR_alias_write:
  assumes "entries_are_NOERROR s" and "Rcode m = RcodeSuccess"
  shows "entries_are_NOERROR (s\<lparr>cache := cache_alias_write key m (cache s)\<rparr>)"
  using assms
  by (auto simp add: entries_are_NOERROR_def cache_alias_write_def list_all_iff
        split: dyn.splits)

lemma LookupNet_invariants:
  assumes "LookupNet ext req net fast clean now s = Inr ((res, label), s')"
  shows "(hints_are_bools s \<longrightarrow> hints_are_bools s') \<and>
         (entries_are_NOERROR s \<longrightarrow> entries_are_NOERROR s')"
  using LookupNet_frame [OF assms]
  by (auto simp add: entries_are_NOERROR_def list_all_cache_Set)

lemma LookupCache_invariants:
  assumes "LookupCache ext req net now s = Inr ((res, hit), s')"
  shows "(hints_are_bools s \<longrightarrow> hints_are_bools s') \<and>
         (entries_are_NOERROR s \<longrightarrow> entries_are_NOERROR s')"
  using LookupCache_frame [OF assms]
  by (auto simp add: hints_are_bools_def entries_are_NOERROR_def list_all_cache_Get)

lemma write_reply_invariants:
  assumes "write_reply req res s = Inr s'"
  shows "hints_are_bools s' = hints_are_bools s \<and>
         entries_are_NOERROR s' = entries_are_NOERROR s"
  using assms by (auto simp add: write_reply_def split: option.splits)

lemma handle_invariants:
  assumes "handle ext req net fast clean tget tset s = Inr s'"
  shows "(hints_are_bools s \<longrightarrow> hints_are_bools s') \<and>
         (entries_are_NOERROR s \<longrightarrow> entries_are_NOERROR s')"
proof (cases "length (Question req) < 1")
  case True
  with assms show ?thesis by (auto simp add: handle_def)
next
  case False
  from assms False obtain res hit s2 where
    c: "LookupCache ext req net tget (emit [EvLookupHosts] s) = Inr ((res, hit), s2)"
    by (auto simp add: handle_def LookupHosts_def split: sum.splits)
  note ic = LookupCache_invariants [OF c]
  show ?thesis
  proof (cases hit)
    case True
    with assms False c have "write_reply req res s2 = Inr s'"
      by (simp add: handle_def LookupHosts_def)
    from write_reply_invariants [OF this] ic show ?thesis by simp
  next
    case nohit: False
    from assms False c nohit obtain r upstream s3 where
      n: "LookupNet ext req net fast clean tset s2 = Inr ((r, upstream), s3)"
      by (auto simp add: handle_def LookupHosts_def split: sum.splits)
    note inn = LookupNet_invariants [OF n]
    show ?thesis
    proof (cases r)
      case None
      with assms False c nohit n have
        "write_reply req (Some (SetRcode new_Msg req RcodeServerFailure)) s3 = Inr s'"
        by (simp add: handle_def LookupHosts_def)
      from write_reply_invariants [OF this] ic inn show ?thesis by simp
    next
      case (Some m)
      let ?s4 = "if Rcode m = RcodeSuccess then
                   (case genCacheKey ext m net of
                      Inl p \<Rightarrow> s3
                    | Inr key \<Rightarrow>
                        s3\<lparr>cache := cache_alias_write key (SetRcode m req (Rcode m)) (cache s3)\<rparr>)
                 else s3"
      from assms False c nohit n Some have w: "write_reply req (Some m) ?s4 = Inr s'"
        by (simp add: handle_def LookupHosts_def Let_def)
      have h4: "hints_are_bools ?s4 = hints_are_bools s3"
        by (simp add: hints_are_bools_def split: sum.splits)
      have e4: "entries_are_NOERROR s3 \<longrightarrow> entries_are_NOERROR ?s4"
        by (auto simp add: entries_are_NOERROR_alias_write split: sum.splits)
      from write_reply_invariants [OF w] h4 e4 ic inn show ?thesis by simp
    qed
  qed
qed

lemma refresh_task_invariants:
  assumes "refresh_task ext req net fast clean now s = Inr s'"
  shows "(hints_are_bools s \<longrightarrow> hints_are_bools s') \<and>
         (entries_are_NOERROR s \<longrightarrow> entries_are_NOERROR s')"
  using assms
  by (auto simp add: refresh_task_def split: sum.splits prod.splits option.splits
        dest: LookupNet_invariants)

lemma reachable_invariants:
  assumes "reachable ext s"
  shows "hints_are_bools s \<and> entries_are_NOERROR s"
  using assms
proof (induction rule: reachable.induct)
  case (start cfg n m)
  show ?case by (simp add: hints_are_bools_def entries_are_NOERROR_def NewCache_def)
next
  case (request s req net fast clean tget tset s')
  with handle_invariants [OF request.hyps(2)] show ?case by simp
next
  case (refresh s req net fast clean now s')
  with refresh_task_invariants [OF refresh.hyps(2)] show ?case by simp
next
  case (late_fast s req res err m' s')
  with Q_frame [OF late_fast.hyps(2)] show ?case by (simp add: entries_are_NOERROR_def)
qed

text \<open>
  C8. In every state a server can reach, every entry of the answer cache holds a reply
  with response code \<open>NOERROR\<close>; and a call of \<open>LookupNet\<close> (from the dispatcher or from a
  refresh task) leaves the answer cache as it is or stores, by one \<open>Set\<close>, the reply it
  returns, whose response code is \<open>NOERROR\<close>.
\<close>

theorem cache_entries_are_NOERROR:
  assumes "reachable ext s"
  shows "entries_are_NOERROR s \<and>
         (LookupNet ext req net fast clean now s = Inr ((res, label), s') \<longrightarrow>
            cache s' = cache s \<or>
            (\<exists>key r. res = Some r \<and> Rcode r = RcodeSuccess \<and>
               genCacheKey ext r net = Inr key \<and>
               cache s' = cache_Set key (VCacheEntry \<lparr>putin = now, reply = r\<rparr>) (cache s)))"
  using reachable_invariants [OF assms] LookupNet_frame [of ext req net fast clean now s res label s']
  by blast

theorem cache_entries_are_NOERROR_witness:
  "reachable example_ext after_baidu_request \<and>
   entries_are_NOERROR after_baidu_request \<and>
   map fst (items (cache after_baidu_request)) = [''baidu.com._A_1_udp''] \<and>
   LookupNet example_ext example_query ''udp'' (Replied (Some example_fast_reply) False)
     (Replied (Some example_reply) False) 2000 after_baidu_request
     = Inr ((Some example_reply, ''8.8.8.8:53''), after_example_lookup) \<and>
   Rcode example_reply = RcodeSuccess \<and>
   cache after_example_lookup =
     cache_Set ''example.com._A_1_udp'' (VCacheEntry \<lparr>putin = 2000, reply = example_reply\<rparr>)
       (cache after_baidu_request)"
proof -
  have k: "genCacheKey example_ext example_reply ''udp'' = Inr ''example.com._A_1_udp''"
    by (simp add: genCacheKey_def Question0_def example_ext_def example_reply_def new_Msg_def)
  have ne: "cache after_example_lookup \<noteq> cache after_baidu_request"
    by (simp add: after_example_lookup_def after_baidu_request_def eval_defs baidu_query_def
      baidu_fast_reply_def baidu_clean_reply_def example_query_def example_fast_reply_def
      example_reply_def)
  from cache_entries_are_NOERROR [OF reachable_after_baidu_request, of example_query "''udp''"
      "Replied (Some example_fast_reply) False" "Replied (Some example_reply) False" 2000
      "Some example_reply" "''8.8.8.8:53''" after_example_lookup]
    LookupNet_example k ne
  have "entries_are_NOERROR after_baidu_request \<and> Rcode example_reply = RcodeSuccess \<and>
        cache after_example_lookup =
          cache_Set ''example.com._A_1_udp'' (VCacheEntry \<lparr>putin = 2000, reply = example_reply\<rparr>)
            (cache after_baidu_request)"
    by auto
  with reachable_after_baidu_request after_baidu_request_stores(2) LookupNet_example
  show ?thesis by simp
qed

lemma set_items_cache_Get:
  "cache_Get k c = (v, c') \<Longrightarrow> set (items c') \<subseteq> set (items c)"
  by (auto simp add: cache_Get_def split: option.splits) (metis map_of_SomeD)

lemma maybePolluted_writes:
  assumes "maybePolluted ext res s = Inr (b, s')"
  shows "if containA res
         then chinaDom s' = cache_Set (Name (hd (Question res)))
                              (VBool (containChinaIP ext res)) (chinaDom s)
         else set (items (chinaDom s')) \<subseteq> set (items (chinaDom s))"
proof (cases "sections res = []")
  case True
  then have "\<not> containA res" by (simp add: containA_def)
  moreover from True assms have "s' = s" by (simp add: maybePolluted_def sections_def)
  ultimately show ?thesis by simp
next
  case False
  show ?thesis
  proof (cases "containA res")
    case True
    with assms False show ?thesis
      by (auto simp add: maybePolluted_def sections_def Let_def Question0_def
            split: sum.splits list.splits)
  next
    case nA: False
    have form: "maybePolluted ext res s =
        (case Question0 res of
           Inl p \<Rightarrow> Inl p
         | Inr q \<Rightarrow>
             (case cache_Get (Name q) (chinaDom s) of
                (Some china, c) \<Rightarrow>
                  (case china of
                     VBool b \<Rightarrow> Inr (\<not> b, s\<lparr>chinaDom := c\<rparr>)
                   | VCacheEntry e \<Rightarrow> Inl TypeAssertionFailed)
              | (None, c) \<Rightarrow> Inr (False, s\<lparr>chinaDom := c\<rparr>)))"
      using False nA by (auto simp add: maybePolluted_def sections_def)
    from assms obtain q where q: "Question0 res = Inr q"
      unfolding form by (cases "Question0 res") simp_all
    obtain v c' where g: "cache_Get (Name q) (chinaDom s) = (v, c')"
      by (cases "cache_Get (Name q) (chinaDom s)")
    from assms g have "chinaDom s' = c'"
      by (auto simp add: form q split: option.splits dyn.splits)
    with set_items_cache_Get [OF g] nA show ?thesis by simp
  qed
qed

text \<open>
  C10. In every state a server can reach, every value of the domain-hint store is a
  boolean, so the type assertion \<open>china.(bool)\<close> in \<open>maybePolluted\<close> does not panic; and
  \<open>maybePolluted\<close> writes the store only for a reply with an A record, storing the result
  of \<open>containChinaIP\<close> under the query name (otherwise it adds nothing to the store).
\<close>

theorem hint_store_holds_bools:
  assumes "reachable ext s"
  shows "hints_are_bools s \<and> maybePolluted ext res s \<noteq> Inl TypeAssertionFailed \<and>
         (maybePolluted ext res s = Inr (b, s') \<longrightarrow>
            (if containA res
             then chinaDom s' = cache_Set (Name (hd (Question res)))
                                  (VBool (containChinaIP ext res)) (chinaDom s)
             else set (items (chinaDom s')) \<subseteq> set (items (chinaDom s))))"
  using reachable_invariants [OF assms] maybePolluted_no_type_panic [of s ext res]
    maybePolluted_writes [of ext res s b s']
  by blast

theorem hint_store_holds_bools_witness:
  "reachable example_ext after_baidu_request \<and>
   hints_are_bools after_baidu_request \<and>
   items (chinaDom after_baidu_request) = [(''baidu.com.'', VBool True)] \<and>
   maybePolluted example_ext baidu_aaaa_reply after_baidu_request \<noteq> Inl TypeAssertionFailed \<and>
   maybePolluted example_ext example_fast_reply after_baidu_request =
     Inr (True, after_baidu_request\<lparr>chinaDom :=
        cache_Set ''example.com.'' (VBool False) (chinaDom after_baidu_request)\<rparr>) \<and>
   containA example_fast_reply \<and> \<not> containChinaIP example_ext example_fast_reply"
proof -
  have m: "maybePolluted example_ext example_fast_reply after_baidu_request =
     Inr (True, after_baidu_request\<lparr>chinaDom :=
        cache_Set ''example.com.'' (VBool False) (chinaDom after_baidu_request)\<rparr>)"
    by (simp add: maybePolluted_def containA_def containChinaIP_def sections_def Question0_def
        example_fast_reply_def new_Msg_def example_ext_def)
  have c: "containA example_fast_reply \<and> \<not> containChinaIP example_ext example_fast_reply"
    by (simp add: containA_def containChinaIP_def sections_def example_fast_reply_def new_Msg_def
        example_ext_def)
  from hint_store_holds_bools [OF reachable_after_baidu_request, of baidu_aaaa_reply]
  have "hints_are_bools after_baidu_request \<and>
        maybePolluted example_ext baidu_aaaa_reply after_baidu_request \<noteq> Inl TypeAssertionFailed"
    by blast
  with reachable_after_baidu_request after_baidu_request_stores(1) m c show ?thesis by simp
qed

end
